theory Spec2Isabelle
  imports Complex_Main "HOL-Library.AList"
begin

section \<open>Python strings\<close>

text \<open>
  A Python \<open>str\<close> is modelled as a \<open>string\<close>, a list of \<open>char\<close>; a \<open>char\<close> stands
  for the code point of the same number, so the model covers the code points below 256.
  In that range \<open>str.lower\<close> maps \<open>A\<close>..\<open>Z\<close> and the upper-case letters 192..222
  (without the multiplication sign 215) to the code point 32 above, and the only decimal
  digits that the regular expression class \<open>\d\<close> accepts are \<open>0\<close>..\<open>9\<close>.
\<close>

definition lower_char :: "char \<Rightarrow> char" where
  "lower_char c =
     (let n = (of_char c :: nat)
      in if (65 \<le> n \<and> n \<le> 90) \<or> (192 \<le> n \<and> n \<le> 222 \<and> n \<noteq> 215)
         then char_of (n + 32) else c)"

definition lower :: "string \<Rightarrow> string" where
  "lower s = map lower_char s"

text \<open>\<open>s.endswith(e)\<close>.\<close>

definition endswith :: "string \<Rightarrow> string \<Rightarrow> bool" where
  "endswith s e = (length e \<le> length s \<and> drop (length s - length e) s = e)"

text \<open>\<open>s.startswith(e)\<close>.\<close>

definition startswith :: "string \<Rightarrow> string \<Rightarrow> bool" where
  "startswith s e = (take (length e) s = e)"

text \<open>\<open>sub in s\<close>: \<open>sub\<close> occurs in \<open>s\<close> as a contiguous run (the empty string always does).\<close>

fun contains :: "string \<Rightarrow> string \<Rightarrow> bool" where
  "contains [] sub = (sub = [])"
| "contains (c # cs) sub = (startswith (c # cs) sub \<or> contains cs sub)"

text \<open>\<open>str(n)\<close> of a non-negative integer: its decimal digits, no leading zero.\<close>

definition digit_char :: "nat \<Rightarrow> char" where
  "digit_char d = char_of (48 + d)"

fun str_nat :: "nat \<Rightarrow> string" where
  "str_nat n = (if n < 10 then [digit_char n] else str_nat (n div 10) @ [digit_char (n mod 10)])"

declare str_nat.simps [simp del]

definition is_digit :: "char \<Rightarrow> bool" where
  "is_digit c = (48 \<le> (of_char c :: nat) \<and> (of_char c :: nat) \<le> 57)"

section \<open>format_size\<close>

text \<open>
  \<open>FileStatsCollector.format_size\<close> (filestatser.py, lines 183-198):
  \<^verbatim>\<open>
      for unit in ['B', 'KB', 'MB', 'GB', 'TB']:
          if size < 1024.0:
              break
          size /= 1024.0
      return "{:.2f} {}".format(size, unit)
  \<close>
  The argument is a byte count, a non-negative integer. Dividing by \<open>1024.0\<close> only
  lowers the exponent of a double, so for a count below \<open>2 ^ 53\<close> the value of \<open>size\<close>
  after \<open>k\<close> divisions is exactly the rational \<open>n / 1024 ^ k\<close>, kept here as the pair of
  \<open>n\<close> and the divisor \<open>1024 ^ k\<close>. The loop variable \<open>unit\<close> keeps its last value when
  the loop runs to its end.
\<close>

fun size_loop :: "nat \<Rightarrow> nat \<Rightarrow> string list \<Rightarrow> string \<Rightarrow> nat \<times> string" where
  "size_loop n d [] unit = (d, unit)"
| "size_loop n d (u # us) unit =
     (if n < 1024 * d then (d, u) else size_loop n (1024 * d) us u)"

text \<open>
  \<open>"{:.2f}".format(x)\<close> for the exact value \<open>x = n / d\<close>: the nearest multiple of
  \<open>1/100\<close>, a tie going to the even one (the conversion is correctly rounded).
\<close>

definition round_half_even :: "nat \<Rightarrow> nat \<Rightarrow> nat" where
  "round_half_even a d =
     (let q = a div d; r = a mod d
      in if d < 2 * r \<or> (2 * r = d \<and> odd q) then q + 1 else q)"

definition two_digits :: "nat \<Rightarrow> string" where
  "two_digits c = [digit_char (c div 10), digit_char (c mod 10)]"

definition format_2f :: "nat \<Rightarrow> nat \<Rightarrow> string" where
  "format_2f n d =
     (let h = round_half_even (100 * n) d
      in str_nat (h div 100) @ ''.'' @ two_digits (h mod 100))"

definition format_size :: "nat \<Rightarrow> string" where
  "format_size n =
     (case size_loop n 1 [''B'', ''KB'', ''MB'', ''GB'', ''TB''] ''''
      of (d, unit) \<Rightarrow> format_2f n d @ '' '' @ unit)"

section \<open>Paths\<close>

text \<open>
  \<open>os.path\<close> is the standard library's, not this repository's; the model follows its
  POSIX implementation (\<open>posixpath\<close>: separator \<open>/\<close>, extension separator \<open>.\<close>).
\<close>

text \<open>\<open>s.rfind(c)\<close> for a single character: the last index of \<open>c\<close>, or \<open>-1\<close>.\<close>

definition rfind :: "string \<Rightarrow> char \<Rightarrow> int" where
  "rfind s c =
     (if c \<in> set s then int (length s) - 1 - int (length (takeWhile (\<lambda>x. x \<noteq> c) (rev s)))
      else - 1)"

text \<open>
  \<open>os.path.splitext(p)\<close>: the extension starts at the last dot of the last path
  component, unless only dots stand before it in that component.
\<close>

definition splitext :: "string \<Rightarrow> string \<times> string" where
  "splitext p =
     (let sepIndex = rfind p (CHR ''/'');
          dotIndex = rfind p (CHR ''.'')
      in if sepIndex < dotIndex \<and>
            list_ex (\<lambda>x. x \<noteq> CHR ''.'')
              (take (nat (dotIndex - (sepIndex + 1))) (drop (nat (sepIndex + 1)) p))
         then (take (nat dotIndex) p, drop (nat dotIndex) p)
         else (p, []))"

text \<open>\<open>os.path.join(a, b)\<close> with two arguments.\<close>

definition path_join :: "string \<Rightarrow> string \<Rightarrow> string" where
  "path_join a b =
     (if startswith b ''/'' then b
      else if a = [] \<or> endswith a ''/'' then a @ b
      else a @ ''/'' @ b)"

section \<open>Conflict resolution\<close>

text \<open>
  \<open>MediaGatherer.remove_number_suffix\<close> (gatherer.py, lines 163-177):
  \<^verbatim>\<open>
      match = re.match(r'^(.*?)\(\d+\)$', basename)
      if match:
          return match.group(1)
      return basename
  \<close>
  The pattern matches when the string ends in \<open>(\<close>, one or more digits and \<open>)\<close>; \<open>$\<close>
  also matches just before a newline that ends the string, and \<open>.\<close> matches every
  character but the newline. Since \<open>(\<close> is no digit, the opening parenthesis can only
  stand right before the longest run of digits that precedes the closing one, so the
  match, when there is one, is unique and the lazy group is everything before it.
\<close>

definition remove_number_suffix :: "string \<Rightarrow> string" where
  "remove_number_suffix basename =
     (let t = (if basename \<noteq> [] \<and> last basename = CHR 0x0A then butlast basename
               else basename)
      in case rev t of
           [] \<Rightarrow> basename
         | c # r1 \<Rightarrow>
             if c = CHR '')'' \<and> takeWhile is_digit r1 \<noteq> [] then
               (case dropWhile is_digit r1 of
                  [] \<Rightarrow> basename
                | b # r2 \<Rightarrow>
                    if b = CHR ''('' \<and> CHR 0x0A \<notin> set r2 then rev r2 else basename)
             else basename)"

text \<open>
  The file system, as the move engine sees it through \<open>os.path.exists\<close>, \<open>os.makedirs\<close>
  and \<open>shutil.move\<close>: the paths that exist.
\<close>

type_synonym filesystem = "string list"

definition path_exists :: "filesystem \<Rightarrow> string \<Rightarrow> bool" where
  "path_exists fs p = (p \<in> set fs)"

text \<open>The candidate \<open>f"{base_name}({counter}){extension}"\<close>.\<close>

definition candidate :: "string \<Rightarrow> string \<Rightarrow> nat \<Rightarrow> string" where
  "candidate base_name extension counter =
     base_name @ ''('' @ str_nat counter @ '')'' @ extension"

subsection \<open>Decimal numerals are injective\<close>

lemma digit_char_inj: "d < 10 \<Longrightarrow> e < 10 \<Longrightarrow> digit_char d = digit_char e \<Longrightarrow> d = e"
proof -
  assume d: "d < 10" and e: "e < 10" and eq: "digit_char d = digit_char e"
  from eq have "(of_char (digit_char d) :: nat) = of_char (digit_char e)" by simp
  with d e show "d = e" by (simp add: digit_char_def)
qed

lemma str_nat_not_Nil: "str_nat n \<noteq> []"
  by (subst str_nat.simps) simp

lemma str_nat_inj: "str_nat m = str_nat n \<Longrightarrow> m = n"
proof (induction m arbitrary: n rule: str_nat.induct)
  case (1 m)
  show ?case
  proof (cases "m < 10")
    case small: True
    show ?thesis
    proof (cases "n < 10")
      case True
      with small "1.prems" show ?thesis
        by (simp add: str_nat.simps [of m] str_nat.simps [of n] digit_char_inj)
    next
      case False
      with small "1.prems" show ?thesis
        using str_nat_not_Nil [of "n div 10"]
        by (simp add: str_nat.simps [of m] str_nat.simps [of n] Cons_eq_append_conv)
    qed
  next
    case big: False
    show ?thesis
    proof (cases "n < 10")
      case True
      with big "1.prems" show ?thesis
        using str_nat_not_Nil [of "m div 10"]
        by (simp add: str_nat.simps [of m] str_nat.simps [of n] append_eq_Cons_conv)
    next
      case False
      with big "1.prems" have a: "str_nat (m div 10) = str_nat (n div 10)"
        and b: "digit_char (m mod 10) = digit_char (n mod 10)"
        by (simp_all add: str_nat.simps [of m] str_nat.simps [of n])
      from "1.IH" [OF big a] have "m div 10 = n div 10" .
      moreover from b have "m mod 10 = n mod 10" by (simp add: digit_char_inj)
      ultimately show ?thesis by (metis div_mult_mod_eq)
    qed
  qed
qed

lemma candidate_inj: "candidate b e m = candidate b e n \<Longrightarrow> m = n"
proof -
  assume "candidate b e m = candidate b e n"
  then have eq: "str_nat m @ '')'' @ e = str_nat n @ '')'' @ e" by (simp add: candidate_def)
  then have "length (str_nat m) = length (str_nat n)"
    by (metis add_right_cancel length_append)
  with eq have "str_nat m = str_nat n" by simp
  then show ?thesis by (rule str_nat_inj)
qed

lemma finite_candidates: "finite {n. candidate b e n \<in> set fs}"
proof -
  have "inj (candidate b e)" by (auto simp: inj_on_def dest: candidate_inj)
  then have "finite (candidate b e -` set fs)" by (intro finite_vimageI) simp_all
  then show ?thesis by (simp add: vimage_def)
qed

subsection \<open>rename_if_exists and handle_file_conflict\<close>

text \<open>
  \<open>MediaGatherer.rename_if_exists\<close> (gatherer.py, lines 141-161):
  \<^verbatim>\<open>
      base_name, extension = os.path.splitext(filename)
      base_name = self.remove_number_suffix(base_name)
      counter = 1
      new_filename = filename
      while os.path.exists(new_filename):
          new_filename = f"{base_name}({counter}){extension}"
          counter += 1
      return new_filename
  \<close>
  The loop is \<open>rename_loop\<close>. It ends on every file system, since the candidates are
  pairwise different and only finitely many paths exist.
\<close>

function rename_loop :: "filesystem \<Rightarrow> string \<Rightarrow> string \<Rightarrow> string \<Rightarrow> nat \<Rightarrow> string" where
  "rename_loop fs base_name extension new_filename counter =
     (if path_exists fs new_filename
      then rename_loop fs base_name extension (candidate base_name extension counter) (counter + 1)
      else new_filename)"
  by pat_completeness auto
termination
proof (relation "measure (\<lambda>(fs, b, e, new, c).
    card {n. c \<le> n \<and> candidate b e n \<in> set fs} + (if new \<in> set fs then 1 else 0))", goal_cases)
  case 1
  show ?case by simp
next
  case (2 fs b e new c)
  let ?A = "{n. c \<le> n \<and> candidate b e n \<in> set fs}"
  let ?B = "{n. c + 1 \<le> n \<and> candidate b e n \<in> set fs}"
  have fin: "finite ?A" using finite_candidates [of b e fs] by (rule rev_finite_subset) auto
  have new: "new \<in> set fs" using 2 by (simp add: path_exists_def)
  show ?case
  proof (cases "candidate b e c \<in> set fs")
    case True
    then have "?A = insert c ?B" by (auto simp: le_Suc_eq)
    moreover have "c \<notin> ?B" by simp
    moreover have "finite ?B" using fin by (rule rev_finite_subset) auto
    ultimately have "card ?A = Suc (card ?B)" by simp
    with True new show ?thesis by simp
  next
    case False
    then have "?B = ?A" by (auto simp: Suc_le_eq le_less)
    with False new show ?thesis by simp
  qed
qed

definition rename_if_exists :: "filesystem \<Rightarrow> string \<Rightarrow> string" where
  "rename_if_exists fs filename =
     (let (base_name, extension) = splitext filename;
          base_name = remove_number_suffix base_name
      in rename_loop fs base_name extension filename 1)"

text \<open>\<open>MediaGatherer.handle_file_conflict\<close> (gatherer.py, lines 126-139).\<close>

definition handle_file_conflict :: "filesystem \<Rightarrow> string \<Rightarrow> string" where
  "handle_file_conflict fs destination_path =
     (if path_exists fs destination_path then rename_if_exists fs destination_path
      else destination_path)"

section \<open>The scanner: FileStatsCollector\<close>

text \<open>
  One scanned file, the dictionary that \<open>process_files\<close> builds. The two dates are kept
  as the time stamps of \<open>entry.stat()\<close>; their rendering as text is not modelled.
\<close>

record file_stat =
  File_Name :: string
  File_Type :: string
  File_Size_Bytes :: nat
  File_Size_Human_Readable :: string
  Creation_Date :: nat
  Modification_Date :: nat
  Source_Folder :: string

text \<open>
  The tree that \<open>os.walk\<close> and \<open>os.scandir\<close> read. \<open>RegFile size ctime mtime\<close> is an entry
  for which \<open>entry.is_file()\<close> holds (a regular file, or a link to one), \<open>Directory\<close> a
  directory that \<open>os.walk\<close> descends into, with its entries in listing order, and
  \<open>Special\<close> any other entry (a link to a directory, which \<open>os.walk\<close> does not follow, a
  dangling link, a device). The tree does not change during a scan and every directory
  can be listed.
\<close>

datatype node = RegFile nat nat nat | Directory "(string \<times> node) list" | Special

text \<open>
  \<open>os.walk(top)\<close>, top down: the directory itself, then the walk of each of its
  subdirectories at \<open>os.path.join(top, name)\<close>. Each path is paired with the entries
  that \<open>os.scandir\<close> lists for it.
\<close>

fun walk :: "string \<Rightarrow> (string \<times> node) list \<Rightarrow> (string \<times> (string \<times> node) list) list"
  and walk_entries :: "string \<Rightarrow> (string \<times> node) list \<Rightarrow> (string \<times> (string \<times> node) list) list"
where
  "walk topdir entries = (topdir, entries) # walk_entries topdir entries"
| "walk_entries topdir [] = []"
| "walk_entries topdir ((name, nd) # rest) =
     (case nd of Directory sub \<Rightarrow> walk (path_join topdir name) sub | _ \<Rightarrow> []) @
     walk_entries topdir rest"

text \<open>
  \<open>FileStatsCollector.is_media_file\<close> (filestatser.py, lines 131-141):
  \<^verbatim>\<open>
      return any(filename.lower().endswith(ext) for ext in self.media_extensions)
  \<close>
\<close>

definition is_media_file :: "string list \<Rightarrow> string \<Rightarrow> bool" where
  "is_media_file media_extensions filename =
     list_ex (\<lambda>ext. endswith (lower filename) ext) media_extensions"

text \<open>
  \<open>FileStatsCollector.process_files\<close> (filestatser.py, lines 200-238), for one folder
  and the entries listed in it.
\<close>

fun process_entries :: "string \<Rightarrow> bool \<Rightarrow> string list \<Rightarrow> (string \<times> node) list \<Rightarrow> file_stat list" where
  "process_entries foldername all_files exts [] = []"
| "process_entries foldername all_files exts ((filename, nd) # rest) =
     (case nd of
        RegFile sz ct mt \<Rightarrow>
          if all_files \<or> is_media_file exts filename
          then \<lparr>File_Name = filename,
                File_Type = lower (snd (splitext filename)),
                File_Size_Bytes = sz,
                File_Size_Human_Readable = format_size sz,
                Creation_Date = ct,
                Modification_Date = mt,
                Source_Folder = foldername\<rparr> # process_entries foldername all_files exts rest
          else process_entries foldername all_files exts rest
      | _ \<Rightarrow> process_entries foldername all_files exts rest)"

definition process_files :: "string \<Rightarrow> bool \<Rightarrow> string list \<Rightarrow> (string \<times> node) list \<Rightarrow> file_stat list" where
  "process_files foldername all_files exts entries =
     process_entries foldername all_files exts entries"

text \<open>
  The test of the comprehension in \<open>_gather_file_stats\<close>:
  \<open>all(skip_folder not in foldername for skip_folder in self.skip_folders)\<close>.
\<close>

definition not_skipped :: "string list \<Rightarrow> string \<Rightarrow> bool" where
  "not_skipped skip_folders foldername =
     list_all (\<lambda>skip_folder. \<not> contains foldername skip_folder) skip_folders"

text \<open>
  What \<open>os.walk(root)\<close> yields for the thing at the root path: the walk of a directory,
  nothing for anything else (the listing error is swallowed by \<open>os.walk\<close>).
\<close>

definition walk_root :: "string \<Rightarrow> node \<Rightarrow> (string \<times> (string \<times> node) list) list" where
  "walk_root root_path nd = (case nd of Directory entries \<Rightarrow> walk root_path entries | _ \<Rightarrow> [])"

text \<open>
  \<open>FileStatsCollector._gather_file_stats\<close> (filestatser.py, lines 240-257):
  \<open>pool.starmap\<close> returns the folders' lists in the order of the walk, and they are
  concatenated.
\<close>

definition gather_file_stats ::
  "string \<Rightarrow> string list \<Rightarrow> bool \<Rightarrow> string list \<Rightarrow> node \<Rightarrow> file_stat list" where
  "gather_file_stats root_path exts all_files skip_folders nd =
     concat (map (\<lambda>(foldername, entries). process_files foldername all_files exts entries)
       (filter (\<lambda>(foldername, entries). not_skipped skip_folders foldername)
          (walk_root root_path nd)))"

datatype error = FileNotFoundError | EOFError

text \<open>
  \<open>FileStatsCollector.check_root_folder\<close> (filestatser.py, lines 143-156):
  \<^verbatim>\<open>
      if os.path.exists(folder):
          return folder
      else:
          raise FileNotFoundError(f"Folder '{folder}' doesn't exist.")
  \<close>
  The second argument is what stands at the path: \<open>None\<close> when nothing does.
\<close>

definition check_root_folder :: "string \<Rightarrow> node option \<Rightarrow> error + string" where
  "check_root_folder folder at_root =
     (case at_root of None \<Rightarrow> Inl FileNotFoundError | Some nd \<Rightarrow> Inr folder)"

record collector =
  root_folder :: string
  media_extensions :: "string list"
  all_files :: bool
  skip_folders :: "string list"
  file_stats :: "file_stat list"

text \<open>\<open>FileStatsCollector.__init__\<close> (filestatser.py, lines 49-55).\<close>

definition FileStatsCollector_init ::
  "string \<Rightarrow> string list \<Rightarrow> bool \<Rightarrow> string list \<Rightarrow> node option \<Rightarrow> error + collector" where
  "FileStatsCollector_init root_path exts allf skips at_root =
     (case check_root_folder root_path at_root of
        Inl e \<Rightarrow> Inl e
      | Inr folder \<Rightarrow>
          Inr \<lparr>root_folder = folder,
               media_extensions = exts,
               all_files = allf,
               skip_folders = skips,
               file_stats =
                 (case at_root of
                    None \<Rightarrow> []
                  | Some nd \<Rightarrow> gather_file_stats folder exts allf skips nd)\<rparr>)"

subsection \<open>Summary statistics\<close>

text \<open>
  \<open>max(iterable, key=f)\<close>: the first element, in iteration order, whose key no other
  element exceeds; \<open>None\<close> stands for the \<open>ValueError\<close> on an empty iterable.
\<close>

fun max_from :: "('a \<Rightarrow> nat) \<Rightarrow> 'a \<Rightarrow> 'a list \<Rightarrow> 'a" where
  "max_from key best [] = best"
| "max_from key best (x # xs) = max_from key (if key best < key x then x else best) xs"

definition py_max :: "('a \<Rightarrow> nat) \<Rightarrow> 'a list \<Rightarrow> 'a option" where
  "py_max key xs = (case xs of [] \<Rightarrow> None | x # rest \<Rightarrow> Some (max_from key x rest))"

record summary =
  total_files :: nat
  total_folders :: nat
  total_size :: nat
  avg_size :: rat
  most_occurring_file_type :: "string option"

text \<open>
  \<open>FileStatsCollector.get_summary_stats\<close> (filestatser.py, lines 587-604):
  \<^verbatim>\<open>
      total_files = len(self.file_stats)
      if not total_files:
          return 0, 0, 0, 0.0, None
      total_size = sum(stat['File Size (Bytes)'] for stat in self.file_stats)
      avg_size = total_size / total_files if total_files > 0 else 0
      file_types = [stat['File Type'] for stat in self.file_stats]
      most_occurring_file_type = max(set(file_types), key=file_types.count)
      self.unique_folders = set(stat['Source Folder'] for stat in self.file_stats)
      total_folders = len(self.unique_folders)
      return total_files, total_folders, total_size, avg_size, most_occurring_file_type
  \<close>
  The order in which Python iterates over \<open>set(file_types)\<close> follows the hashes of the
  strings and is not fixed by the program; it is the parameter \<open>set_order\<close>, which maps
  a list to its distinct elements in the order of iteration. The average is the exact
  quotient (Python's is the double nearest to it). \<open>None\<close> is the result of the
  \<open>except\<close> branch.
\<close>

definition get_summary_stats :: "(string list \<Rightarrow> string list) \<Rightarrow> file_stat list \<Rightarrow> summary option" where
  "get_summary_stats set_order stats =
     (let n = length stats
      in if n = 0
         then Some \<lparr>total_files = 0, total_folders = 0, total_size = 0, avg_size = 0,
                    most_occurring_file_type = None\<rparr>
         else
           let size_sum = sum_list (map File_Size_Bytes stats);
               file_types = map File_Type stats
           in case py_max (count_list file_types) (set_order file_types) of
                None \<Rightarrow> None
              | Some t \<Rightarrow>
                  Some \<lparr>total_files = n,
                        total_folders = length (remdups (map Source_Folder stats)),
                        total_size = size_sum,
                        avg_size = of_nat size_sum / of_nat n,
                        most_occurring_file_type = Some t\<rparr>)"

section \<open>The move engine: MediaGatherer and Gatherer\<close>

text \<open>
  A gatherer is a collector with the mapping of moved files (\<open>self.moved_files\<close>, a
  dictionary from source path to destination path, kept in insertion order) and the
  destination folder.
\<close>

record gatherer = collector +
  moved_files :: "(string \<times> string) list"
  dest_folder :: string

text \<open>
  What the program prints and how long it sleeps, in order. A printed line is kept as
  an event with the values it shows.
\<close>

datatype event =
    NoFilesToMove
  | Moved string
  | TotalFilesMoved nat
  | ErrorMoving
  | MovedBatch int int
  | Sleep rat
  | ErrorBatchMoving
  | MovedStats nat

text \<open>The world outside the object: the existing paths and the events so far.\<close>

record world =
  paths :: filesystem
  trace :: "event list"

definition emit :: "event \<Rightarrow> world \<Rightarrow> world" where
  "emit e w = w\<lparr>trace := trace w @ [e]\<rparr>"

text \<open>
  \<open>shutil.move(src, dst)\<close>: fails (\<open>None\<close>) when the source does not exist; otherwise
  the source path is gone and the destination path exists.
\<close>

definition shutil_move :: "filesystem \<Rightarrow> string \<Rightarrow> string \<Rightarrow> filesystem option" where
  "shutil_move fs src dst =
     (if path_exists fs src then Some (List.insert dst (removeAll src fs)) else None)"

text \<open>
  \<open>MediaGatherer.create_media_folder\<close> (gatherer.py, lines 73-82):
  \<^verbatim>\<open>
      if not os.path.exists(destination_folder):
          os.makedirs(destination_folder)
          self.dest_folder = destination_folder
  \<close>
\<close>

definition create_media_folder :: "string \<Rightarrow> gatherer \<times> world \<Rightarrow> gatherer \<times> world" where
  "create_media_folder destination_folder s =
     (case s of (g, w) \<Rightarrow>
        if \<not> path_exists (paths w) destination_folder
        then (g\<lparr>dest_folder := destination_folder\<rparr>,
              w\<lparr>paths := destination_folder # paths w\<rparr>)
        else (g, w))"

text \<open>\<open>MediaGatherer.get_files_to_move\<close> (gatherer.py, lines 84-86).\<close>

definition get_files_to_move :: "gatherer \<Rightarrow> bool \<Rightarrow> file_stat list" where
  "get_files_to_move g move_all_files =
     filter (\<lambda>stat. move_all_files \<or> is_media_file (media_extensions g) (File_Name stat))
       (file_stats g)"

text \<open>
  The \<open>for\<close> loop of \<open>MediaGatherer.move_files_to_destination\<close> (gatherer.py, lines
  103-120):
  \<^verbatim>\<open>
      for file_stat in files_to_move:
          source_path = os.path.join(file_stat['Source Folder'], file_stat['File Name'])
          destination_path = os.path.join(destination_folder, file_stat['File Name'])
          if source_path == destination_path:
              continue
          destination_path = self.handle_file_conflict(destination_path)
          shutil.move(source_path, destination_path)
          self.moved_files[source_path] = destination_path
          print(f"\tMoved: {file_stat['File Name']}")
  \<close>
  The first component of the result is \<open>False\<close> when \<open>shutil.move\<close> raised: the loop is
  left at that record, with the state as it then is.
\<close>

fun move_loop :: "string \<Rightarrow> file_stat list \<Rightarrow> gatherer \<times> world \<Rightarrow> bool \<times> gatherer \<times> world" where
  "move_loop destination_folder [] s = (True, s)"
| "move_loop destination_folder (file_stat # rest) s =
     (case s of (g, w) \<Rightarrow>
        let source_path = path_join (Source_Folder file_stat) (File_Name file_stat);
            destination_path = path_join destination_folder (File_Name file_stat)
        in if source_path = destination_path then move_loop destination_folder rest (g, w)
           else
             let destination_path = handle_file_conflict (paths w) destination_path
             in case shutil_move (paths w) source_path destination_path of
                  None \<Rightarrow> (False, g, w)
                | Some fs' \<Rightarrow>
                    move_loop destination_folder rest
                      (g\<lparr>moved_files :=
                           AList.update source_path destination_path (moved_files g)\<rparr>,
                       emit (Moved (File_Name file_stat)) (w\<lparr>paths := fs'\<rparr>)))"

text \<open>
  \<open>MediaGatherer.move_files_to_destination\<close> (gatherer.py, lines 88-124): the whole
  body stands in one \<open>try\<close>, whose \<open>except\<close> branch prints the error.
  \<^verbatim>\<open>
      try:
          self.create_media_folder(destination_folder)
          if not files_to_move:
              print("\nNO FILEs TO MOVE. ^<>^")
              return -1
          for file_stat in files_to_move:
              ...
          print(f"Total Files Moved: {len(files_to_move)}")
      except Exception as e:
          print(f"Error moving files to destination folder: {e}")
  \<close>
\<close>

definition move_files_to_destination ::
  "file_stat list \<Rightarrow> string \<Rightarrow> gatherer \<times> world \<Rightarrow> gatherer \<times> world" where
  "move_files_to_destination files_to_move destination_folder s =
     (case create_media_folder destination_folder s of (g, w) \<Rightarrow>
        if files_to_move = [] then (g, emit NoFilesToMove w)
        else
          (case move_loop destination_folder files_to_move (g, w) of
             (True, g', w') \<Rightarrow> (g', emit (TotalFilesMoved (length files_to_move)) w')
           | (False, g', w') \<Rightarrow> (g', emit ErrorMoving w')))"

text \<open>
  \<open>MediaGatherer._batch_move_files\<close> (gatherer.py, lines 211-229):
  \<^verbatim>\<open>
      try:
          for i in range(0, len(files_to_move), batch_size):
              batch = files_to_move[i:i + batch_size]
              self.move_files_to_destination(destination_folder=destination_folder, files_to_move=batch)
              print(f"Moved batch {i // batch_size + 1} of {len(files_to_move) // batch_size + 1}")
              sleep(delay)
      except Exception as e:
          print(f"An Exception Occurred while Batch Moving {e}")
  \<close>
  \<open>batch_loop\<close> is the loop for a positive step, at index \<open>i\<close>. \<open>time.sleep\<close> raises
  \<open>ValueError\<close> for a negative delay, which ends the loop in the \<open>except\<close> branch.
\<close>

function batch_loop ::
  "nat \<Rightarrow> rat \<Rightarrow> string \<Rightarrow> file_stat list \<Rightarrow> nat \<Rightarrow> gatherer \<times> world \<Rightarrow> gatherer \<times> world" where
  "batch_loop batch_size delay destination_folder files_to_move i s =
     (if 0 < batch_size \<and> i < length files_to_move then
        (case move_files_to_destination (take batch_size (drop i files_to_move))
                destination_folder s of
           (g, w) \<Rightarrow>
             let w1 = emit (MovedBatch (int (i div batch_size) + 1)
                              (int (length files_to_move div batch_size) + 1)) w
             in if delay < 0 then (g, emit ErrorBatchMoving w1)
                else batch_loop batch_size delay destination_folder files_to_move
                       (i + batch_size) (g, emit (Sleep delay) w1))
      else s)"
  by pat_completeness auto
termination
  by (relation "measure (\<lambda>(batch_size, delay, destination_folder, files_to_move, i, s).
        length files_to_move - i)") auto

text \<open>
  \<open>range(0, n, batch_size)\<close> raises \<open>ValueError\<close> for the step 0 and is empty for a
  negative step.
\<close>

definition batch_move_files ::
  "file_stat list \<Rightarrow> string \<Rightarrow> int \<Rightarrow> rat \<Rightarrow> gatherer \<times> world \<Rightarrow> gatherer \<times> world" where
  "batch_move_files files_to_move destination_folder batch_size delay s =
     (if batch_size = 0 then (case s of (g, w) \<Rightarrow> (g, emit ErrorBatchMoving w))
      else if batch_size < 0 then s
      else batch_loop (nat batch_size) delay destination_folder files_to_move 0 s)"

text \<open>
  \<open>MediaGatherer.gather_media\<close> (gatherer.py, lines 179-209). \<open>show_moved_stats\<close> only
  prints; its line is kept with the number of moved files.
  \<^verbatim>\<open>
      if destination_folder is None:
          destination_folder = self.dest_folder
      if self.all_files:
          move_all = True
      files_to_move = self.get_files_to_move(move_all)
      if len(self.file_stats) > 100:
          self._batch_move_files(files_to_move, destination_folder, batch_size=batch_size, delay=time_delay)
      else:
          self.move_files_to_destination(files_to_move, destination_folder, move_all)
      self.show_moved_stats()
  \<close>
\<close>

definition gather_media ::
  "string option \<Rightarrow> bool \<Rightarrow> int \<Rightarrow> rat \<Rightarrow> gatherer \<times> world \<Rightarrow> gatherer \<times> world" where
  "gather_media destination_folder move_all batch_size time_delay s =
     (case s of (g, w) \<Rightarrow>
        let destination_folder =
              (case destination_folder of None \<Rightarrow> dest_folder g | Some d \<Rightarrow> d);
            move_all = (all_files g \<or> move_all);
            files_to_move = get_files_to_move g move_all
        in case (if 100 < length (file_stats g)
                 then batch_move_files files_to_move destination_folder batch_size time_delay (g, w)
                 else move_files_to_destination files_to_move destination_folder (g, w))
           of (g', w') \<Rightarrow> (g', emit (MovedStats (length (moved_files g'))) w'))"

text \<open>
  \<open>MediaGatherer.__init__\<close> (gatherer.py, lines 46-70):
  \<^verbatim>\<open>
      if skip_folders is None:
          skip_folders = []
      if destination_folder is None:
          destination_folder = os.path.join(root_folder, 'media')
      skip_folders.append(destination_folder)
      self.root_folder = root_folder
      self.media_extensions = media_extensions
      super().__init__(root_folder, media_extensions=media_extensions,
                       skip_folders=skip_folders, all_files=all_files)
      self.moved_files = {}
      self.file_sources = []
      self.file_stats_dict = []
      self.dest_folder = destination_folder
  \<close>
\<close>

definition MediaGatherer_init ::
  "string \<Rightarrow> string option \<Rightarrow> string list option \<Rightarrow> string list \<Rightarrow> bool \<Rightarrow> node option
     \<Rightarrow> error + gatherer" where
  "MediaGatherer_init root_path destination_folder skip_list exts allf at_root =
     (let skip_list = (case skip_list of None \<Rightarrow> [] | Some l \<Rightarrow> l);
          destination_folder =
            (case destination_folder of None \<Rightarrow> path_join root_path ''media'' | Some d \<Rightarrow> d);
          skip_list = skip_list @ [destination_folder]
      in case FileStatsCollector_init root_path exts allf skip_list at_root of
           Inl e \<Rightarrow> Inl e
         | Inr c \<Rightarrow>
             Inr (collector.extend c
                    \<lparr>moved_files = [], dest_folder = destination_folder\<rparr>))"

text \<open>\<open>line.split(',')\<close>.\<close>

fun split_comma :: "string \<Rightarrow> string list" where
  "split_comma [] = [[]]"
| "split_comma (c # cs) =
     (if c = CHR '','' then [] # split_comma cs
      else (case split_comma cs of
              [] \<Rightarrow> [[c]]
            | part # parts \<Rightarrow> (c # part) # parts))"

text \<open>
  \<open>Gatherer.set_extensions\<close> (gatherer.py, lines 334-343):
  \<^verbatim>\<open>
      while any(element == "" for element in extensions):
          extensions = input("Enter custom file extensions (comma-separated): ").split(',')
      return extensions
  \<close>
  The first argument holds the lines that \<open>input\<close> will read; \<open>input\<close> raises \<open>EOFError\<close>
  when none is left.
\<close>

fun set_extensions :: "string list \<Rightarrow> string list \<Rightarrow> error + string list" where
  "set_extensions [] extensions =
     (if list_ex (\<lambda>element. element = []) extensions then Inl EOFError else Inr extensions)"
| "set_extensions (line # stdin) extensions =
     (if list_ex (\<lambda>element. element = []) extensions
      then set_extensions stdin (split_comma line)
      else Inr extensions)"

text \<open>\<open>Gatherer.__init__\<close> (gatherer.py, lines 306-332).\<close>

definition Gatherer_init ::
  "string list \<Rightarrow> string \<Rightarrow> string option \<Rightarrow> string list option \<Rightarrow> string list option \<Rightarrow> bool
     \<Rightarrow> node option \<Rightarrow> error + gatherer" where
  "Gatherer_init stdin root_path destination_folder extensions skip_list allf at_root =
     (let extensions = (case extensions of None \<Rightarrow> [] | Some l \<Rightarrow> l);
          skip_list = (case skip_list of None \<Rightarrow> [] | Some l \<Rightarrow> l);
          destination_folder =
            (case destination_folder of
               None \<Rightarrow> path_join root_path ''Extracted Files'' | Some d \<Rightarrow> d)
      in case set_extensions stdin extensions of
           Inl e \<Rightarrow> Inl e
         | Inr exts \<Rightarrow>
             MediaGatherer_init root_path (Some destination_folder) (Some skip_list)
               exts allf at_root)"

section \<open>Example data\<close>

text \<open>A record of a file \<open>name\<close> in \<open>folder\<close>, and a gatherer without records.\<close>

definition example_stat :: "string \<Rightarrow> string \<Rightarrow> file_stat" where
  "example_stat folder name =
     \<lparr>File_Name = name, File_Type = lower (snd (splitext name)), File_Size_Bytes = 1,
      File_Size_Human_Readable = format_size 1, Creation_Date = 0, Modification_Date = 0,
      Source_Folder = folder\<rparr>"

definition example_gatherer :: "file_stat list \<Rightarrow> string \<Rightarrow> gatherer" where
  "example_gatherer stats dest =
     \<lparr>root_folder = ''root'', media_extensions = [''.jpg''], all_files = False,
      skip_folders = [dest], file_stats = stats, moved_files = [], dest_folder = dest\<rparr>"

section \<open>Claims about conflict resolution\<close>

subsection \<open>The first unused candidate\<close>

declare rename_loop.simps [simp del]

lemma rename_loop_first_free:
  "path_exists fs new \<Longrightarrow>
   \<exists>N\<ge>c. rename_loop fs b e new c = candidate b e N \<and>
          \<not> path_exists fs (candidate b e N) \<and>
          (\<forall>k. c \<le> k \<and> k < N \<longrightarrow> path_exists fs (candidate b e k))"
proof (induction fs b e new c rule: rename_loop.induct)
  case (1 fs b e new c)
  from "1.prems" have step:
    "rename_loop fs b e new c = rename_loop fs b e (candidate b e c) (c + 1)"
    by (subst rename_loop.simps) simp
  show ?case
  proof (cases "path_exists fs (candidate b e c)")
    case False
    then have "rename_loop fs b e (candidate b e c) (c + 1) = candidate b e c"
      by (subst rename_loop.simps) simp
    with step False show ?thesis by (intro exI [of _ c]) auto
  next
    case True
    from "1.IH" [OF "1.prems" True] obtain N where N: "c + 1 \<le> N"
      "rename_loop fs b e (candidate b e c) (c + 1) = candidate b e N"
      "\<not> path_exists fs (candidate b e N)"
      "\<forall>k. c + 1 \<le> k \<and> k < N \<longrightarrow> path_exists fs (candidate b e k)"
      by blast
    have "\<forall>k. c \<le> k \<and> k < N \<longrightarrow> path_exists fs (candidate b e k)"
    proof (intro allI impI)
      fix k assume k: "c \<le> k \<and> k < N"
      show "path_exists fs (candidate b e k)"
      proof (cases "k = c")
        case True with \<open>path_exists fs (candidate b e c)\<close> show ?thesis by simp
      next
        case False with k N(4) show ?thesis by simp
      qed
    qed
    with N step show ?thesis by (intro exI [of _ N]) auto
  qed
qed

text \<open>
  On every file system: a path that does not exist is returned unchanged; for a path
  that exists the result does not exist, differs from the path and is the first unused
  candidate over the base that \<open>remove_number_suffix\<close> returns for the stem.
\<close>

lemma handle_file_conflict_first_free:
  "(\<not> path_exists fs p \<longrightarrow> handle_file_conflict fs p = p) \<and>
   (path_exists fs p \<longrightarrow>
      \<not> path_exists fs (handle_file_conflict fs p) \<and>
      handle_file_conflict fs p \<noteq> p \<and>
      (\<exists>N\<ge>1.
         handle_file_conflict fs p =
           candidate (remove_number_suffix (fst (splitext p))) (snd (splitext p)) N \<and>
         (\<forall>k. 1 \<le> k \<and> k < N \<longrightarrow>
            path_exists fs
              (candidate (remove_number_suffix (fst (splitext p))) (snd (splitext p)) k))))"
proof (intro conjI impI)
  assume "\<not> path_exists fs p"
  then show "handle_file_conflict fs p = p" by (simp add: handle_file_conflict_def)
next
  assume ex: "path_exists fs p"
  let ?b = "remove_number_suffix (fst (splitext p))" and ?e = "snd (splitext p)"
  from ex have eq: "handle_file_conflict fs p = rename_loop fs ?b ?e p 1"
    by (simp add: handle_file_conflict_def rename_if_exists_def split_def Let_def)
  from rename_loop_first_free [OF ex, of 1 ?b ?e] obtain N where N: "1 \<le> N"
    "rename_loop fs ?b ?e p 1 = candidate ?b ?e N"
    "\<not> path_exists fs (candidate ?b ?e N)"
    "\<forall>k. 1 \<le> k \<and> k < N \<longrightarrow> path_exists fs (candidate ?b ?e k)"
    by blast
  from N eq show "\<not> path_exists fs (handle_file_conflict fs p)" by simp
  from N eq ex show "handle_file_conflict fs p \<noteq> p" by auto
  from N eq show "\<exists>N\<ge>1. handle_file_conflict fs p = candidate ?b ?e N \<and>
      (\<forall>k. 1 \<le> k \<and> k < N \<longrightarrow> path_exists fs (candidate ?b ?e k))"
    by (intro exI [of _ N]) simp
qed

subsection \<open>Stripping the number suffix\<close>

text \<open>
  The stripping as the spec and the docstring of \<open>remove_number_suffix\<close> word it, to be
  compared with the regular expression of the source: a stem that ends in \<open>(\<close>, one or
  more digits and \<open>)\<close> loses that group, any other stem is left as it is.
\<close>

definition spec_strip_number_suffix :: "string \<Rightarrow> string" where
  "spec_strip_number_suffix stem =
     (case rev stem of
        [] \<Rightarrow> stem
      | c # r1 \<Rightarrow>
          if c = CHR '')'' \<and> takeWhile is_digit r1 \<noteq> [] then
            (case dropWhile is_digit r1 of
               [] \<Rightarrow> stem
             | b # r2 \<Rightarrow> if b = CHR ''('' then rev r2 else stem)
          else stem)"

lemma is_digit_paren [simp]: "\<not> is_digit (CHR ''('')"
  by (simp add: is_digit_def)

lemma spec_strip_number_suffix_strips:
  assumes "ds \<noteq> []" and "list_all is_digit ds"
  shows "spec_strip_number_suffix (b @ ''('' @ ds @ '')'') = b"
proof -
  let ?s = "b @ ''('' @ ds @ '')''"
  from assms(2) have dig: "\<And>x. x \<in> set (rev ds) \<Longrightarrow> is_digit x"
    by (simp add: list_all_iff)
  have tw: "takeWhile is_digit (rev ds @ CHR ''('' # rev b) = rev ds"
    using takeWhile_append2 [of "rev ds" is_digit "CHR ''('' # rev b"] dig by simp
  have dw: "dropWhile is_digit (rev ds @ CHR ''('' # rev b) = CHR ''('' # rev b"
    using dropWhile_append2 [of "rev ds" is_digit "CHR ''('' # rev b"] dig by simp
  show ?thesis
    unfolding spec_strip_number_suffix_def
    using assms(1) by (simp add: tw dw)
qed

text \<open>On a stem without a newline the source strips as the spec says.\<close>

lemma strip_case_without_newline:
  "CHR 0x0A \<notin> set dw \<Longrightarrow>
   (case dw of [] \<Rightarrow> s
    | b # r2 \<Rightarrow> if b = CHR ''('' \<and> CHR 0x0A \<notin> set r2 then rev r2 else s) =
   (case dw of [] \<Rightarrow> s | b # r2 \<Rightarrow> if b = CHR ''('' then rev r2 else (s::string))"
  by (cases dw) auto

lemma remove_number_suffix_without_newline:
  assumes "CHR 0x0A \<notin> set stem"
  shows "remove_number_suffix stem = spec_strip_number_suffix stem"
proof (cases "stem = []")
  case True
  then show ?thesis by (simp add: remove_number_suffix_def spec_strip_number_suffix_def)
next
  case False
  with assms have l: "last stem \<noteq> CHR 0x0A" using last_in_set by metis
  show ?thesis
  proof (cases "rev stem")
    case Nil
    with False show ?thesis by simp
  next
    case (Cons c r1)
    then have "set r1 \<subseteq> set stem" by (metis set_rev set_subset_Cons)
    moreover have "set (dropWhile is_digit r1) \<subseteq> set r1"
      using set_dropWhileD by fastforce
    ultimately have "CHR 0x0A \<notin> set (dropWhile is_digit r1)" using assms by blast
    note key = strip_case_without_newline [OF this, of stem]
    from l False have t: "(if stem \<noteq> [] \<and> last stem = CHR 0x0A then butlast stem else stem) = stem"
      by simp
    show ?thesis
      unfolding remove_number_suffix_def spec_strip_number_suffix_def Let_def t Cons list.case key
      by (rule refl)
  qed
qed

lemma remove_number_suffix_strips:
  assumes "ds \<noteq> []" and "list_all is_digit ds" and "CHR 0x0A \<notin> set b"
  shows "remove_number_suffix (b @ ''('' @ ds @ '')'') = b"
proof -
  from assms(2) have "CHR 0x0A \<notin> set ds" by (auto simp: list_all_iff is_digit_def)
  with assms(3) have "CHR 0x0A \<notin> set (b @ ''('' @ ds @ '')'')" by simp
  then have "remove_number_suffix (b @ ''('' @ ds @ '')'') =
      spec_strip_number_suffix (b @ ''('' @ ds @ '')'')"
    by (rule remove_number_suffix_without_newline)
  with spec_strip_number_suffix_strips [OF assms(1,2), of b] show ?thesis by simp
qed

text \<open>
  Where no newline stands in the stem, the result for an existing path is the first
  unused candidate over the stem without its trailing group.
\<close>

lemma no_stacking_without_newline:
  assumes "ds \<noteq> []" and "list_all is_digit ds" and "CHR 0x0A \<notin> set b"
    and "splitext p = (b @ ''('' @ ds @ '')'', ext)" and "path_exists fs p"
  shows "\<exists>N\<ge>1. handle_file_conflict fs p = candidate b ext N \<and>
         \<not> path_exists fs (candidate b ext N) \<and>
         (\<forall>k. 1 \<le> k \<and> k < N \<longrightarrow> path_exists fs (candidate b ext k))"
proof -
  from assms(1-3) have "remove_number_suffix (b @ ''('' @ ds @ '')'') = b"
    by (rule remove_number_suffix_strips)
  with assms(4) have b: "remove_number_suffix (fst (splitext p)) = b"
    and e: "snd (splitext p) = ext" by simp_all
  from assms(5) have "handle_file_conflict fs p = rename_loop fs b ext p 1"
    by (simp add: handle_file_conflict_def rename_if_exists_def split_def Let_def b e)
  with rename_loop_first_free [OF assms(5), of 1 b ext] show ?thesis by auto
qed

text \<open>
  C1. The claim is right about the code where the stem holds no newline (the lemmas
  above), but not for every path. The regular expression of \<open>remove_number_suffix\<close> is
  matched without \<open>re.DOTALL\<close>, so \<open>.\<close> does not pass a newline: for the existing path
  \<open>d/a\nb(1).j\<close> the stem keeps its group, and the result is \<open>d/a\nb(1)(1).j\<close>, where the
  first unused candidate over the stripped stem \<open>d/a\nb\<close> is \<open>d/a\nb(2).j\<close>. For
  \<open>d/x(1).jpg\<close> the group is stripped and the result is \<open>d/x(2).jpg\<close>.
\<close>

theorem handle_file_conflict_newline_stem:
  "handle_file_conflict [''d/x.jpg'', ''d/x(1).jpg''] ''d/x(1).jpg'' = ''d/x(2).jpg'' \<and>
   splitext ''d/a\<newline>b(1).j'' = (''d/a\<newline>b(1)'', ''.j'') \<and>
   spec_strip_number_suffix ''d/a\<newline>b(1)'' = ''d/a\<newline>b'' \<and>
   remove_number_suffix ''d/a\<newline>b(1)'' = ''d/a\<newline>b(1)'' \<and>
   candidate ''d/a\<newline>b'' ''.j'' 1 = ''d/a\<newline>b(1).j'' \<and>
   candidate ''d/a\<newline>b'' ''.j'' 2 = ''d/a\<newline>b(2).j'' \<and>
   \<not> path_exists [''d/a\<newline>b(1).j''] ''d/a\<newline>b(2).j'' \<and>
   handle_file_conflict [''d/a\<newline>b(1).j''] ''d/a\<newline>b(1).j'' = ''d/a\<newline>b(1)(1).j''"
  by code_simp

text \<open>
  C2. The claim is right about the code where the stem holds no newline: the destination
  holds \<open>x.jpg\<close>, a new \<open>x.jpg\<close> is moved to \<open>x(1).jpg\<close> and a further one to \<open>x(2).jpg\<close>.
  It fails where a newline stands before the group, by the same regular expression:
  the destination holds \<open>a\nb(1).j\<close>, a new file of that name is moved to
  \<open>a\nb(1)(1).j\<close> and a further one to \<open>a\nb(1)(2).j\<close>, with stacked suffixes.
\<close>

theorem suffix_stacks_after_newline:
  "moved_files (fst
     (move_files_to_destination [example_stat ''b'' ''x.jpg''] ''dest''
       (move_files_to_destination [example_stat ''a'' ''x.jpg''] ''dest''
          (example_gatherer [] ''dest'',
           \<lparr>paths = [''dest'', ''dest/x.jpg'', ''a/x.jpg'', ''b/x.jpg''], trace = []\<rparr>)))) =
     [(''a/x.jpg'', ''dest/x(1).jpg''), (''b/x.jpg'', ''dest/x(2).jpg'')] \<and>
   moved_files (fst
     (move_files_to_destination [example_stat ''b'' ''a\<newline>b(1).j''] ''dest''
       (move_files_to_destination [example_stat ''a'' ''a\<newline>b(1).j''] ''dest''
          (example_gatherer [] ''dest'',
           \<lparr>paths = [''dest'', ''dest/a\<newline>b(1).j'', ''a/a\<newline>b(1).j'',
                     ''b/a\<newline>b(1).j''],
            trace = []\<rparr>)))) =
     [(''a/a\<newline>b(1).j'', ''dest/a\<newline>b(1)(1).j''),
      (''b/a\<newline>b(1).j'', ''dest/a\<newline>b(1)(2).j'')]"
  by code_simp

section \<open>Claims about the move engine\<close>

subsection \<open>A failing move\<close>

declare batch_loop.simps [simp del]

lemma move_loop_append:
  "move_loop dest (xs @ ys) s =
     (case move_loop dest xs s of (True, s1) \<Rightarrow> move_loop dest ys s1 | (False, s1) \<Rightarrow> (False, s1))"
proof (induction xs arbitrary: s)
  case Nil
  show ?case by simp
next
  case (Cons x xs)
  obtain g w where s: "s = (g, w)" by (cases s)
  show ?case unfolding s
    by (simp add: Cons.IH Let_def split: option.splits)
qed

lemma move_loop_fails_at:
  assumes "path_join (Source_Folder f) (File_Name f) \<noteq> path_join dest (File_Name f)"
    and "\<not> path_exists (paths w) (path_join (Source_Folder f) (File_Name f))"
  shows "move_loop dest (f # post) (g, w) = (False, g, w)"
  using assms by (simp add: Let_def shutil_move_def)

text \<open>
  C3, as the code has it. The whole loop of \<open>move_files_to_destination\<close> stands in one
  \<open>try\<close>: when the move of a record fails after the records \<open>pre\<close> went through, the
  error is printed and the call ends there, with the mapping and the file system as the
  records before the failing one left them; the records after it are not attempted. A
  batched run goes on with the next batch whatever happened in the current one.
\<close>

theorem move_failure_abandons_rest_of_batch:
  "(move_loop dest pre (create_media_folder dest s) = (True, g1, w1) \<and>
    path_join (Source_Folder f) (File_Name f) \<noteq> path_join dest (File_Name f) \<and>
    \<not> path_exists (paths w1) (path_join (Source_Folder f) (File_Name f)) \<longrightarrow>
      move_files_to_destination (pre @ f # post) dest s = (g1, emit ErrorMoving w1)) \<and>
   (0 < batch_size \<and> 0 \<le> delay \<and> i < length files \<longrightarrow>
      batch_loop batch_size delay dest files i s =
        batch_loop batch_size delay dest files (i + batch_size)
          (case move_files_to_destination (take batch_size (drop i files)) dest s of
             (g, w) \<Rightarrow>
               (g, emit (Sleep delay)
                     (emit (MovedBatch (int (i div batch_size) + 1)
                              (int (length files div batch_size) + 1)) w))))"
proof (intro conjI impI)
  assume a: "move_loop dest pre (create_media_folder dest s) = (True, g1, w1) \<and>
    path_join (Source_Folder f) (File_Name f) \<noteq> path_join dest (File_Name f) \<and>
    \<not> path_exists (paths w1) (path_join (Source_Folder f) (File_Name f))"
  then have "move_loop dest (f # post) (g1, w1) = (False, g1, w1)"
    using move_loop_fails_at [of f dest w1 post g1] by blast
  with a have "move_loop dest (pre @ f # post) (create_media_folder dest s) = (False, g1, w1)"
    by (simp add: move_loop_append)
  then show "move_files_to_destination (pre @ f # post) dest s = (g1, emit ErrorMoving w1)"
    by (simp add: move_files_to_destination_def split: prod.splits)
next
  assume "0 < batch_size \<and> 0 \<le> delay \<and> i < length files"
  then show "batch_loop batch_size delay dest files i s =
        batch_loop batch_size delay dest files (i + batch_size)
          (case move_files_to_destination (take batch_size (drop i files)) dest s of
             (g, w) \<Rightarrow>
               (g, emit (Sleep delay)
                     (emit (MovedBatch (int (i div batch_size) + 1)
                              (int (length files div batch_size) + 1)) w)))"
    by (subst batch_loop.simps) (simp add: Let_def split: prod.splits)
qed

theorem move_failure_abandons_rest_of_batch_witness:
  "move_loop ''dest'' [] (create_media_folder ''dest''
      (example_gatherer [] ''dest'', \<lparr>paths = [''dest'', ''b/y.jpg''], trace = []\<rparr>)) =
     (True, example_gatherer [] ''dest'', \<lparr>paths = [''dest'', ''b/y.jpg''], trace = []\<rparr>) \<and>
   path_join (Source_Folder (example_stat ''a'' ''x.jpg'')) (File_Name (example_stat ''a'' ''x.jpg''))
     \<noteq> path_join ''dest'' (File_Name (example_stat ''a'' ''x.jpg'')) \<and>
   \<not> path_exists [''dest'', ''b/y.jpg'']
       (path_join (Source_Folder (example_stat ''a'' ''x.jpg''))
          (File_Name (example_stat ''a'' ''x.jpg''))) \<and>
   move_files_to_destination ([] @ example_stat ''a'' ''x.jpg'' # [example_stat ''b'' ''y.jpg''])
       ''dest'' (example_gatherer [] ''dest'', \<lparr>paths = [''dest'', ''b/y.jpg''], trace = []\<rparr>) =
     (example_gatherer [] ''dest'',
      emit ErrorMoving \<lparr>paths = [''dest'', ''b/y.jpg''], trace = []\<rparr>) \<and>
   (0::nat) < 1 \<and> (0::rat) \<le> 1 / 10 \<and>
   (0::nat) < length [example_stat ''a'' ''x.jpg'', example_stat ''b'' ''y.jpg''] \<and>
   batch_loop 1 (1 / 10) ''dest'' [example_stat ''a'' ''x.jpg'', example_stat ''b'' ''y.jpg''] 0
       (example_gatherer [] ''dest'', \<lparr>paths = [''dest'', ''b/y.jpg''], trace = []\<rparr>) =
     ((example_gatherer [] ''dest'')\<lparr>moved_files := [(''b/y.jpg'', ''dest/y.jpg'')]\<rparr>,
      \<lparr>paths = [''dest/y.jpg'', ''dest''],
       trace = [ErrorMoving, MovedBatch 1 3, Sleep (1 / 10),
                Moved ''y.jpg'', TotalFilesMoved 1, MovedBatch 2 3, Sleep (1 / 10)]\<rparr>)"
proof -
  let ?g = "example_gatherer [] ''dest''"
  let ?w = "\<lparr>paths = [''dest'', ''b/y.jpg''], trace = []\<rparr>"
  let ?a = "example_stat ''a'' ''x.jpg''" and ?b = "example_stat ''b'' ''y.jpg''"
  have h1: "move_loop ''dest'' [] (create_media_folder ''dest'' (?g, ?w)) = (True, ?g, ?w)"
    by (simp add: create_media_folder_def path_exists_def)
  have h2: "path_join (Source_Folder ?a) (File_Name ?a) \<noteq> path_join ''dest'' (File_Name ?a)"
    by (simp add: example_stat_def path_join_def startswith_def endswith_def)
  have h3: "\<not> path_exists (paths ?w) (path_join (Source_Folder ?a) (File_Name ?a))"
    by (simp add: example_stat_def path_join_def startswith_def endswith_def path_exists_def)
  have h4: "batch_loop 1 (1 / 10) ''dest'' [?a, ?b] 0 (?g, ?w) =
     (?g\<lparr>moved_files := [(''b/y.jpg'', ''dest/y.jpg'')]\<rparr>,
      \<lparr>paths = [''dest/y.jpg'', ''dest''],
       trace = [ErrorMoving, MovedBatch 1 3, Sleep (1 / 10),
                Moved ''y.jpg'', TotalFilesMoved 1, MovedBatch 2 3, Sleep (1 / 10)]\<rparr>)"
    by code_simp
  from move_failure_abandons_rest_of_batch [of "''dest''" "[]" "(?g, ?w)" ?g ?w ?a "[?b]"] h1 h2 h3
  have "move_files_to_destination ([] @ ?a # [?b]) ''dest'' (?g, ?w) = (?g, emit ErrorMoving ?w)"
    by simp
  with h1 h2 h3 h4 show ?thesis by simp
qed

text \<open>
  The claim as stated fails: the first record's source is missing, the second record's
  source exists and would be moved by a call of its own, yet the call on both moves
  nothing and leaves the second file in place.
\<close>

theorem move_failure_counterexample:
  "path_exists [''dest'', ''b/y.jpg''] ''b/y.jpg'' \<and>
   move_files_to_destination [example_stat ''a'' ''x.jpg'', example_stat ''b'' ''y.jpg''] ''dest''
      (example_gatherer [] ''dest'', \<lparr>paths = [''dest'', ''b/y.jpg''], trace = []\<rparr>) =
     (example_gatherer [] ''dest'', \<lparr>paths = [''dest'', ''b/y.jpg''], trace = [ErrorMoving]\<rparr>) \<and>
   move_files_to_destination [example_stat ''b'' ''y.jpg''] ''dest''
      (example_gatherer [] ''dest'', \<lparr>paths = [''dest'', ''b/y.jpg''], trace = []\<rparr>) =
     ((example_gatherer [] ''dest'')\<lparr>moved_files := [(''b/y.jpg'', ''dest/y.jpg'')]\<rparr>,
      \<lparr>paths = [''dest/y.jpg'', ''dest''], trace = [Moved ''y.jpg'', TotalFilesMoved 1]\<rparr>)"
  by code_simp

subsection \<open>Batches and pacing\<close>

text \<open>
  The batching as the spec words it, to be compared with the loop of the source: the
  sequence is cut into consecutive runs of \<open>n\<close> records, the last one holding what is
  left; each batch is moved, its line is printed, and the run sleeps.
\<close>

function partition_batches :: "nat \<Rightarrow> 'a list \<Rightarrow> 'a list list" where
  "partition_batches n xs =
     (if n = 0 \<or> xs = [] then [] else take n xs # partition_batches n (drop n xs))"
  by pat_completeness auto
termination
  by (relation "measure (\<lambda>(n, xs). length xs)") auto

declare partition_batches.simps [simp del]

text \<open>One batch of the run: the batch is moved, its line is printed, the run sleeps.\<close>

definition batch_step ::
  "rat \<Rightarrow> string \<Rightarrow> nat \<Rightarrow> nat \<Rightarrow> file_stat list \<Rightarrow> gatherer \<times> world \<Rightarrow> gatherer \<times> world" where
  "batch_step delay dest n_all k batch s =
     (case move_files_to_destination batch dest s of
        (g, w) \<Rightarrow> (g, emit (Sleep delay) (emit (MovedBatch (int k + 1) (int n_all + 1)) w)))"

fun run_batches ::
  "rat \<Rightarrow> string \<Rightarrow> nat \<Rightarrow> nat \<Rightarrow> file_stat list list \<Rightarrow> gatherer \<times> world \<Rightarrow> gatherer \<times> world" where
  "run_batches delay dest n_all k [] s = s"
| "run_batches delay dest n_all k (batch # rest) s =
     run_batches delay dest n_all (k + 1) rest (batch_step delay dest n_all k batch s)"

fun is_sleep :: "event \<Rightarrow> bool" where
  "is_sleep (Sleep d) = True"
| "is_sleep e = False"

definition sleep_count :: "gatherer \<times> world \<Rightarrow> nat" where
  "sleep_count s = length (filter is_sleep (trace (snd s)))"

lemma partition_batches_Nil [simp]: "partition_batches n [] = []"
  by (subst partition_batches.simps) simp

lemma partition_batches_step:
  "0 < n \<Longrightarrow> xs \<noteq> [] \<Longrightarrow>
   partition_batches n xs = take n xs # partition_batches n (drop n xs)"
  by (subst partition_batches.simps) simp

lemma concat_partition_batches: "0 < n \<Longrightarrow> concat (partition_batches n xs) = xs"
proof (induction n xs rule: partition_batches.induct)
  case (1 n xs)
  show ?case
  proof (cases "xs = []")
    case True then show ?thesis by simp
  next
    case False
    with 1 show ?thesis by (simp add: partition_batches_step)
  qed
qed

lemma partition_batches_nth:
  "0 < n \<Longrightarrow> j < length (partition_batches n xs) \<Longrightarrow>
   partition_batches n xs ! j = take n (drop (j * n) xs)"
proof (induction n xs arbitrary: j rule: partition_batches.induct)
  case (1 n xs)
  show ?case
  proof (cases "xs = []")
    case True with "1.prems" show ?thesis by simp
  next
    case False
    with "1.prems" have eq: "partition_batches n xs = take n xs # partition_batches n (drop n xs)"
      by (simp add: partition_batches_step)
    show ?thesis
    proof (cases j)
      case 0 then show ?thesis by (simp add: eq)
    next
      case (Suc j')
      with "1.prems" eq have "j' < length (partition_batches n (drop n xs))" by simp
      with "1.IH" [of j'] False "1.prems"
      have "partition_batches n (drop n xs) ! j' = take n (drop (j' * n) (drop n xs))" by simp
      with Suc eq show ?thesis by (simp add: add.commute)
    qed
  qed
qed

lemma length_partition_batches:
  "0 < n \<Longrightarrow> length (partition_batches n xs) = (length xs + n - 1) div n"
proof (induction n xs rule: partition_batches.induct)
  case (1 n xs)
  show ?case
  proof (cases "xs = []")
    case True with "1.prems" show ?thesis by simp
  next
    case False
    with "1.prems" have eq: "partition_batches n xs = take n xs # partition_batches n (drop n xs)"
      by (rule_tac partition_batches_step)
    from False 1 have ih: "length (partition_batches n (drop n xs)) = (length xs - n + n - 1) div n"
      by simp
    from False have pos: "0 < length xs" by simp
    show ?thesis
    proof (cases "length xs \<le> n")
      case True
      from pos have lo: "n \<le> length xs + n - 1" by linarith
      from pos True "1.prems" have hi: "length xs + n - 1 < n + n" by linarith
      from lo hi have one: "(length xs + n - 1) div n = 1"
        by (intro div_nat_eqI) simp_all
      from True "1.prems" have "(length xs - n + n - 1) div n = 0" by simp
      with ih one show ?thesis unfolding eq by simp
    next
      case gt: False
      have d: "(length xs - 1 + n) div n = (length xs - 1) div n + 1"
        using "1.prems" by simp
      from pos have "length xs + n - 1 = length xs - 1 + n" by linarith
      with d have a: "(length xs + n - 1) div n = (length xs - 1) div n + 1"
        by (simp only:)
      from gt have "length xs - n + n - 1 = length xs - 1" by linarith
      with ih have ih': "length (partition_batches n (drop n xs)) = (length xs - 1) div n"
        by (simp only:)
      from ih' a show ?thesis unfolding eq by simp
    qed
  qed
qed

lemma batch_loop_refines:
  "0 < bs \<Longrightarrow> 0 \<le> delay \<Longrightarrow>
   batch_loop bs delay dest files i s =
     run_batches delay dest (length files div bs) (i div bs)
       (partition_batches bs (drop i files)) s"
proof (induction bs delay dest files i s rule: batch_loop.induct)
  case (1 bs delay dest files i s)
  show ?case
  proof (cases "i < length files")
    case False
    then show ?thesis by (subst batch_loop.simps) simp
  next
    case True
    obtain g w where mv:
      "move_files_to_destination (take bs (drop i files)) dest s = (g, w)"
      by (cases "move_files_to_destination (take bs (drop i files)) dest s")
    let ?w1 = "emit (MovedBatch (int (i div bs) + 1) (int (length files div bs) + 1)) w"
    from True "1.prems" mv have unfold:
      "batch_loop bs delay dest files i s =
         batch_loop bs delay dest files (i + bs) (g, emit (Sleep delay) ?w1)"
      by (subst batch_loop.simps) (simp add: Let_def)
    have ih: "batch_loop bs delay dest files (i + bs) (g, emit (Sleep delay) ?w1) =
        run_batches delay dest (length files div bs) ((i + bs) div bs)
          (partition_batches bs (drop (i + bs) files)) (g, emit (Sleep delay) ?w1)"
      by (rule "1.IH") (simp_all add: mv True "1.prems" not_less)
    from True have ne: "drop i files \<noteq> []" by simp
    from "1.prems" ne have part: "partition_batches bs (drop i files) =
        take bs (drop i files) # partition_batches bs (drop (i + bs) files)"
      by (simp add: partition_batches_step [OF _ ne] add.commute)
    from "1.prems" have idx: "(i + bs) div bs = i div bs + 1" by simp
    have step: "batch_step delay dest (length files div bs) (i div bs) (take bs (drop i files)) s =
        (g, emit (Sleep delay) ?w1)"
      by (simp add: batch_step_def mv)
    show ?thesis unfolding unfold ih part idx by (simp add: step)
  qed
qed

lemma move_loop_sleeps:
  "filter is_sleep (trace (snd (snd (move_loop dest xs (g, w))))) = filter is_sleep (trace w)"
proof (induction xs arbitrary: g w)
  case Nil
  show ?case by simp
next
  case (Cons x xs)
  show ?case by (simp add: Let_def Cons.IH emit_def split: option.splits)
qed

lemma move_files_sleeps:
  "sleep_count (move_files_to_destination batch dest s) = sleep_count s"
proof -
  obtain g w where s: "s = (g, w)" by (cases s)
  obtain g1 w1 where c: "create_media_folder dest (g, w) = (g1, w1)"
    by (cases "create_media_folder dest (g, w)")
  from c have t: "trace w1 = trace w"
    by (auto simp: create_media_folder_def split: if_splits)
  obtain ok g2 w2 where m: "move_loop dest batch (g1, w1) = (ok, g2, w2)"
    by (cases "move_loop dest batch (g1, w1)")
  from move_loop_sleeps [of dest batch g1 w1] m t
  have "filter is_sleep (trace w2) = filter is_sleep (trace w)" by simp
  then show ?thesis
    by (cases ok) (simp_all add: s sleep_count_def move_files_to_destination_def c m emit_def t)
qed

lemma batch_step_sleeps:
  "sleep_count (batch_step delay dest n_all k batch s) = sleep_count s + 1"
proof -
  obtain g w where mv: "move_files_to_destination batch dest s = (g, w)"
    by (cases "move_files_to_destination batch dest s")
  from move_files_sleeps [of batch dest s] mv have "sleep_count (g, w) = sleep_count s" by simp
  then show ?thesis by (simp add: batch_step_def mv sleep_count_def emit_def)
qed

lemma batch_step_last:
  "last (trace (snd (batch_step delay dest n_all k batch s))) = Sleep delay"
  by (simp add: batch_step_def emit_def split: prod.splits)

lemma run_batches_sleeps:
  "sleep_count (run_batches delay dest n_all k batches s) = sleep_count s + length batches"
  by (induction batches arbitrary: k s) (simp_all add: batch_step_sleeps)

lemma run_batches_last:
  "batches \<noteq> [] \<Longrightarrow> last (trace (snd (run_batches delay dest n_all k batches s))) = Sleep delay"
proof (induction batches arbitrary: k s)
  case Nil
  then show ?case by simp
next
  case (Cons b batches)
  show ?case
  proof (cases "batches = []")
    case True then show ?thesis by (simp add: batch_step_last)
  next
    case False with Cons.IH show ?thesis by simp
  qed
qed

lemma full_batches_before_last:
  assumes "0 < bs" and "j + 1 < length (partition_batches bs files)"
  shows "length (partition_batches bs files ! j) = bs"
proof -
  from assms have "j + 2 \<le> (length files + bs - 1) div bs"
    by (simp add: length_partition_batches)
  with assms(1) have "(j + 2) * bs \<le> length files + bs - 1"
    by (simp add: less_eq_div_iff_mult_less_eq)
  then have "j * bs + bs + bs \<le> length files + bs - 1" by (simp add: algebra_simps)
  with assms(1) have "j * bs + bs \<le> length files" by linarith
  moreover from assms have "partition_batches bs files ! j = take bs (drop (j * bs) files)"
    by (simp add: partition_batches_nth)
  ultimately show ?thesis by simp
qed

text \<open>
  C6, as the code has it. For a positive batch size and a non-negative delay,
  \<open>_batch_move_files\<close> moves the batches of the partition in order: their concatenation
  is the input, every batch before the last has exactly \<open>bs\<close> records and no batch is
  empty or longer. The run sleeps once after every batch, the final one included.
\<close>

theorem batch_run_sleeps_after_every_batch:
  "0 < bs \<and> 0 \<le> delay \<longrightarrow>
     batch_move_files files dest (int bs) delay s =
       run_batches delay dest (length files div bs) 0 (partition_batches bs files) s \<and>
     concat (partition_batches bs files) = files \<and>
     (\<forall>j. j + 1 < length (partition_batches bs files) \<longrightarrow>
          length (partition_batches bs files ! j) = bs) \<and>
     (\<forall>b \<in> set (partition_batches bs files). b \<noteq> [] \<and> length b \<le> bs) \<and>
     length (partition_batches bs files) = (length files + bs - 1) div bs \<and>
     sleep_count (batch_move_files files dest (int bs) delay s) =
       sleep_count s + length (partition_batches bs files) \<and>
     (files \<noteq> [] \<longrightarrow>
        last (trace (snd (batch_move_files files dest (int bs) delay s))) = Sleep delay)"
proof (intro impI)
  assume a: "0 < bs \<and> 0 \<le> delay"
  let ?P = "partition_batches bs files"
  from a have run: "batch_move_files files dest (int bs) delay s =
      run_batches delay dest (length files div bs) 0 ?P s"
    using batch_loop_refines [of bs delay dest files 0 s] by (simp add: batch_move_files_def)
  from a have cc: "concat ?P = files" by (simp add: concat_partition_batches)
  from a have full: "\<forall>j. j + 1 < length ?P \<longrightarrow> length (?P ! j) = bs"
    by (simp add: full_batches_before_last)
  have each: "\<forall>b \<in> set ?P. b \<noteq> [] \<and> length b \<le> bs"
  proof
    fix b assume "b \<in> set ?P"
    then obtain j where j: "j < length ?P" "?P ! j = b" by (auto simp: in_set_conv_nth)
    with a have b: "b = take bs (drop (j * bs) files)" by (simp add: partition_batches_nth)
    from j a have "j + 1 \<le> (length files + bs - 1) div bs"
      by (simp add: length_partition_batches)
    with a have "(j + 1) * bs \<le> length files + bs - 1"
      by (simp add: less_eq_div_iff_mult_less_eq)
    then have "j * bs + bs \<le> length files + bs - 1" by (simp add: algebra_simps)
    with a have "j * bs < length files" by linarith
    with b a show "b \<noteq> [] \<and> length b \<le> bs" by simp
  qed
  from a have len: "length ?P = (length files + bs - 1) div bs"
    by (simp add: length_partition_batches)
  have sl: "sleep_count (batch_move_files files dest (int bs) delay s) = sleep_count s + length ?P"
    unfolding run by (rule run_batches_sleeps)
  have lst: "files \<noteq> [] \<longrightarrow>
      last (trace (snd (batch_move_files files dest (int bs) delay s))) = Sleep delay"
  proof
    assume "files \<noteq> []"
    with cc have "?P \<noteq> []" by auto
    then show "last (trace (snd (batch_move_files files dest (int bs) delay s))) = Sleep delay"
      unfolding run by (rule run_batches_last)
  qed
  from run cc full each len sl lst show
    "batch_move_files files dest (int bs) delay s =
       run_batches delay dest (length files div bs) 0 ?P s \<and>
     concat ?P = files \<and>
     (\<forall>j. j + 1 < length ?P \<longrightarrow> length (?P ! j) = bs) \<and>
     (\<forall>b \<in> set ?P. b \<noteq> [] \<and> length b \<le> bs) \<and>
     length ?P = (length files + bs - 1) div bs \<and>
     sleep_count (batch_move_files files dest (int bs) delay s) = sleep_count s + length ?P \<and>
     (files \<noteq> [] \<longrightarrow>
        last (trace (snd (batch_move_files files dest (int bs) delay s))) = Sleep delay)"
    by blast
qed

theorem batch_run_sleeps_after_every_batch_witness:
  "(0::nat) < 2 \<and> (0::rat) \<le> 1 / 10 \<and>
   [example_stat ''b'' ''y.jpg'', example_stat ''c'' ''z.jpg'', example_stat ''e'' ''u.jpg''] \<noteq> [] \<and>
   length (partition_batches 2
     [example_stat ''b'' ''y.jpg'', example_stat ''c'' ''z.jpg'', example_stat ''e'' ''u.jpg'']) = 2 \<and>
   sleep_count (batch_move_files
       [example_stat ''b'' ''y.jpg'', example_stat ''c'' ''z.jpg'', example_stat ''e'' ''u.jpg'']
       ''dest'' 2 (1 / 10)
       (example_gatherer [] ''dest'',
        \<lparr>paths = [''dest'', ''b/y.jpg'', ''c/z.jpg'', ''e/u.jpg''], trace = []\<rparr>)) = 2 \<and>
   last (trace (snd (batch_move_files
       [example_stat ''b'' ''y.jpg'', example_stat ''c'' ''z.jpg'', example_stat ''e'' ''u.jpg'']
       ''dest'' 2 (1 / 10)
       (example_gatherer [] ''dest'',
        \<lparr>paths = [''dest'', ''b/y.jpg'', ''c/z.jpg'', ''e/u.jpg''], trace = []\<rparr>)))) =
     Sleep (1 / 10)"
proof -
  let ?F = "[example_stat ''b'' ''y.jpg'', example_stat ''c'' ''z.jpg'', example_stat ''e'' ''u.jpg'']"
  let ?s = "(example_gatherer [] ''dest'',
        \<lparr>paths = [''dest'', ''b/y.jpg'', ''c/z.jpg'', ''e/u.jpg''], trace = []\<rparr>)"
  have h: "(0::nat) < 2 \<and> (0::rat) \<le> 1 / 10" by simp
  have ne: "?F \<noteq> []" by simp
  note t = batch_run_sleeps_after_every_batch [of 2 "1 / 10" ?F "''dest''" ?s]
  from t h have "length (partition_batches 2 ?F) = (length ?F + 2 - 1) div 2" by blast
  then have len: "length (partition_batches 2 ?F) = 2" by simp
  from t h have "sleep_count (batch_move_files ?F ''dest'' (int 2) (1 / 10) ?s) =
      sleep_count ?s + length (partition_batches 2 ?F)" by blast
  with len have sc: "sleep_count (batch_move_files ?F ''dest'' 2 (1 / 10) ?s) = 2"
    by (simp add: sleep_count_def)
  from t h ne have "last (trace (snd (batch_move_files ?F ''dest'' (int 2) (1 / 10) ?s))) =
      Sleep (1 / 10)" by blast
  then have lst: "last (trace (snd (batch_move_files ?F ''dest'' 2 (1 / 10) ?s))) = Sleep (1 / 10)"
    by simp
  from h ne len sc lst show ?thesis by blast
qed

text \<open>
  The claim as stated fails: a run with a single batch, which is the final one, ends
  with a sleep.
\<close>

theorem batch_run_sleep_counterexample:
  "trace (snd (batch_move_files [example_stat ''b'' ''y.jpg''] ''dest'' 15 (1 / 10)
      (example_gatherer [] ''dest'', \<lparr>paths = [''dest'', ''b/y.jpg''], trace = []\<rparr>))) =
     [Moved ''y.jpg'', TotalFilesMoved 1, MovedBatch 1 1, Sleep (1 / 10)]"
  by code_simp

section \<open>Claims about sizes and summaries\<close>

subsection \<open>format_size\<close>

lemma digit_char_values:
  "digit_char 0 = CHR ''0''" "digit_char 1 = CHR ''1''" "digit_char 2 = CHR ''2''"
  "digit_char 3 = CHR ''3''" "digit_char 4 = CHR ''4''" "digit_char 5 = CHR ''5''"
  "digit_char 6 = CHR ''6''" "digit_char 7 = CHR ''7''" "digit_char 8 = CHR ''8''"
  "digit_char 9 = CHR ''9''" "digit_char (Suc 0) = CHR ''1''"
  by code_simp+

lemmas format_size_eval = format_size_def format_2f_def round_half_even_def two_digits_def
  str_nat.simps digit_char_values Let_def

text \<open>The examples of the spec.\<close>

lemma format_size_examples:
  "format_size 1536 = ''1.50 KB'' \<and> format_size 1073741824 = ''1.00 GB'' \<and>
   format_size 512 = ''512.00 B''"
  by (simp add: format_size_eval)

text \<open>
  C9. The claim holds for the examples, but not for every byte count: from \<open>1024 ^ 5\<close>
  bytes on, the loop runs through all five units, divides once more than the last unit
  stands for, and leaves \<open>unit\<close> at \<open>TB\<close>. So \<open>2 ^ 50\<close> bytes, which are 1024 TB, are
  rendered like \<open>1024 ^ 4\<close> bytes, which are 1 TB.
\<close>

theorem format_size_petabyte:
  "format_size 1125899906842624 = ''1.00 TB'' \<and>
   (1125899906842624::nat) = 1024 * 1024 ^ 4 \<and>
   format_size (1024 ^ 4) = ''1.00 TB''"
  by (simp add: format_size_eval)

subsection \<open>The most common extension\<close>

text \<open>
  The tie-break as the spec words it: the histogram keeps the extensions in the order
  in which they are first seen, and the maximum is searched in that order.
\<close>

definition first_seen_order :: "'a list \<Rightarrow> 'a list" where
  "first_seen_order xs = rev (remdups (rev xs))"

definition first_seen_most_common :: "string list \<Rightarrow> string option" where
  "first_seen_most_common file_types = py_max (count_list file_types) (first_seen_order file_types)"

lemma max_from_first:
  "\<exists>pre post. best # xs = pre @ max_from key best xs # post \<and>
      (\<forall>u \<in> set pre. key u < key (max_from key best xs)) \<and>
      (\<forall>u \<in> set post. key u \<le> key (max_from key best xs))"
proof (induction xs arbitrary: best)
  case Nil
  show ?case by (intro exI [of _ "[]"]) simp
next
  case (Cons x xs)
  show ?case
  proof (cases "key best < key x")
    case True
    then have eq: "max_from key best (x # xs) = max_from key x xs" by simp
    from Cons.IH [of x] obtain pre post where p: "x # xs = pre @ max_from key x xs # post"
      "\<forall>u \<in> set pre. key u < key (max_from key x xs)"
      "\<forall>u \<in> set post. key u \<le> key (max_from key x xs)" by blast
    have "key x \<le> key (max_from key x xs)"
    proof (cases pre)
      case Nil
      with p(1) have "x # xs = max_from key x xs # post" by (simp only: append_Nil)
      then have "x = max_from key x xs" by blast
      then have "key x = key (max_from key x xs)" by (rule arg_cong)
      then show ?thesis by simp
    next
      case (Cons y ys)
      with p(1) have "x \<in> set pre" by simp
      with p(2) show ?thesis by (auto intro: less_imp_le)
    qed
    with True have "key best < key (max_from key x xs)" by simp
    with p have "best # x # xs = (best # pre) @ max_from key x xs # post \<and>
      (\<forall>u \<in> set (best # pre). key u < key (max_from key x xs)) \<and>
      (\<forall>u \<in> set post. key u \<le> key (max_from key x xs))" by simp
    then show ?thesis unfolding eq by blast
  next
    case False
    then have eq: "max_from key best (x # xs) = max_from key best xs" by simp
    let ?t = "max_from key best xs"
    from Cons.IH [of best] obtain pre post where p: "best # xs = pre @ ?t # post"
      "\<forall>u \<in> set pre. key u < key ?t"
      "\<forall>u \<in> set post. key u \<le> key ?t" by blast
    show ?thesis
    proof (cases pre)
      case Nil
      with p(1) have "best # xs = ?t # post" by (simp only: append_Nil)
      then have tp: "best = ?t \<and> xs = post" by (rule list.inject [THEN iffD1])
      from tp have t: "?t = best" by (rule conjunct1 [THEN sym])
      from tp have post: "post = xs" by (rule conjunct2 [THEN sym])
      from False t p(3) post have "best # x # xs = [] @ ?t # (x # xs) \<and>
        (\<forall>u \<in> set []. key u < key ?t) \<and> (\<forall>u \<in> set (x # xs). key u \<le> key ?t)"
        by simp
      then show ?thesis unfolding eq by blast
    next
      case (Cons y ys)
      with p(1) have "best # xs = y # (ys @ ?t # post)" by (simp only: append_Cons)
      then have yp: "best = y \<and> xs = ys @ ?t # post" by (rule list.inject [THEN iffD1])
      from yp have y: "y = best" by (rule conjunct1 [THEN sym])
      from yp have xs: "xs = ys @ ?t # post" by (rule conjunct2)
      from p(2) Cons y have "key best < key ?t" by simp
      with False have "key x < key ?t" by simp
      with p(2,3) Cons y xs have "best # x # xs = (best # x # ys) @ ?t # post \<and>
        (\<forall>u \<in> set (best # x # ys). key u < key ?t) \<and> (\<forall>u \<in> set post. key u \<le> key ?t)"
        by simp
      then show ?thesis unfolding eq by blast
    qed
  qed
qed

lemma py_max_first:
  assumes "xs \<noteq> []"
  shows "\<exists>t pre post. py_max key xs = Some t \<and> xs = pre @ t # post \<and>
      (\<forall>u \<in> set pre. key u < key t) \<and> (\<forall>u \<in> set post. key u \<le> key t)"
proof -
  from assms obtain x rest where xs: "xs = x # rest" by (cases xs) auto
  from max_from_first [of x rest key] show ?thesis unfolding xs py_max_def by auto
qed

text \<open>
  C7, as the code has it. For a non-empty record sequence and any order in which the
  set of the extensions is iterated, the summary's most common extension is an
  extension with the maximum count, and among the extensions with that count it is the
  first one in the iteration order of the set (every extension before it has a smaller
  count).
\<close>

theorem most_common_extension_max_in_set_order:
  "stats \<noteq> [] \<and> set (set_order (map File_Type stats)) = set (map File_Type stats) \<longrightarrow>
   (\<exists>s t pre post.
      get_summary_stats set_order stats = Some s \<and>
      most_occurring_file_type s = Some t \<and>
      t \<in> set (map File_Type stats) \<and>
      (\<forall>u \<in> set (map File_Type stats).
         count_list (map File_Type stats) u \<le> count_list (map File_Type stats) t) \<and>
      set_order (map File_Type stats) = pre @ t # post \<and>
      (\<forall>u \<in> set pre. count_list (map File_Type stats) u < count_list (map File_Type stats) t))"
proof
  assume a: "stats \<noteq> [] \<and> set (set_order (map File_Type stats)) = set (map File_Type stats)"
  let ?ft = "map File_Type stats"
  let ?key = "count_list ?ft"
  from a have "set (set_order ?ft) \<noteq> {}" by simp
  then have ne: "set_order ?ft \<noteq> []" by auto
  from py_max_first [OF ne, of ?key] obtain t pre post where m:
    "py_max ?key (set_order ?ft) = Some t" "set_order ?ft = pre @ t # post"
    "\<forall>u \<in> set pre. ?key u < ?key t" "\<forall>u \<in> set post. ?key u \<le> ?key t" by blast
  from m(2) a have tin: "t \<in> set ?ft" by (metis in_set_conv_decomp)
  have mx: "\<forall>u \<in> set ?ft. ?key u \<le> ?key t"
  proof
    fix u assume "u \<in> set ?ft"
    with a have "u \<in> set (pre @ t # post)" using m(2) by simp
    with m(3,4) show "?key u \<le> ?key t" by (auto intro: less_imp_le)
  qed
  let ?s = "\<lparr>total_files = length stats,
             total_folders = length (remdups (map Source_Folder stats)),
             total_size = sum_list (map File_Size_Bytes stats),
             avg_size = of_nat (sum_list (map File_Size_Bytes stats)) / of_nat (length stats),
             most_occurring_file_type = Some t\<rparr>"
  from a m(1) have eq: "get_summary_stats set_order stats = Some ?s"
    by (simp add: get_summary_stats_def Let_def)
  have sel: "most_occurring_file_type ?s = Some t" by simp
  from eq sel tin mx m(2,3) show "\<exists>s t pre post.
      get_summary_stats set_order stats = Some s \<and>
      most_occurring_file_type s = Some t \<and>
      t \<in> set ?ft \<and>
      (\<forall>u \<in> set ?ft. ?key u \<le> ?key t) \<and>
      set_order ?ft = pre @ t # post \<and>
      (\<forall>u \<in> set pre. ?key u < ?key t)"
    by blast
qed

theorem most_common_extension_max_in_set_order_witness:
  "[example_stat ''d'' ''x.a'', example_stat ''d'' ''y.b'', example_stat ''e'' ''z.b''] \<noteq> [] \<and>
   set (remdups (map File_Type
      [example_stat ''d'' ''x.a'', example_stat ''d'' ''y.b'', example_stat ''e'' ''z.b''])) =
     set (map File_Type
      [example_stat ''d'' ''x.a'', example_stat ''d'' ''y.b'', example_stat ''e'' ''z.b'']) \<and>
   (\<exists>s t. get_summary_stats remdups
      [example_stat ''d'' ''x.a'', example_stat ''d'' ''y.b'', example_stat ''e'' ''z.b''] = Some s \<and>
      most_occurring_file_type s = Some t \<and>
      t \<in> set (map File_Type
        [example_stat ''d'' ''x.a'', example_stat ''d'' ''y.b'', example_stat ''e'' ''z.b'']))"
proof -
  let ?F = "[example_stat ''d'' ''x.a'', example_stat ''d'' ''y.b'', example_stat ''e'' ''z.b'']"
  have h1: "?F \<noteq> []" by simp
  have h2: "set (remdups (map File_Type ?F)) = set (map File_Type ?F)" by (rule set_remdups)
  from most_common_extension_max_in_set_order [of ?F remdups] h1 h2
  obtain s t where "get_summary_stats remdups ?F = Some s"
    "most_occurring_file_type s = Some t" "t \<in> set (map File_Type ?F)"
    by blast
  with h1 h2 show ?thesis by blast
qed

text \<open>
  The claim as stated fails: when the set is iterated in another order than the one of
  first occurrence, here the reverse, a tie goes to the extension seen later in the
  input, \<open>.b\<close>, where the spec's rule picks \<open>.a\<close>.
\<close>

theorem most_common_extension_counterexample:
  "get_summary_stats (\<lambda>l. rev (remdups l))
      [example_stat ''d'' ''x.a'', example_stat ''d'' ''y.b''] =
     Some \<lparr>total_files = 2, total_folders = 1, total_size = 2, avg_size = 1,
           most_occurring_file_type = Some ''.b''\<rparr> \<and>
   first_seen_most_common
      (map File_Type [example_stat ''d'' ''x.a'', example_stat ''d'' ''y.b'']) = Some ''.a''"
  by code_simp

section \<open>Claims about the scanner\<close>

subsection \<open>The skip list\<close>

text \<open>\<open>contains\<close> is the substring test.\<close>

lemma contains_iff: "contains s sub \<longleftrightarrow> (\<exists>pre post. s = pre @ sub @ post)"
proof (induction s)
  case Nil
  show ?case by auto
next
  case (Cons c cs)
  show ?case
  proof
    assume "contains (c # cs) sub"
    then consider "startswith (c # cs) sub" | "contains cs sub" by auto
    then show "\<exists>pre post. c # cs = pre @ sub @ post"
    proof cases
      case 1
      then have "c # cs = [] @ sub @ drop (length sub) (c # cs)"
        unfolding startswith_def by (metis append_Nil append_take_drop_id)
      then show ?thesis by blast
    next
      case 2
      with Cons.IH obtain pre post where "cs = pre @ sub @ post" by blast
      then have "c # cs = (c # pre) @ sub @ post" by simp
      then show ?thesis by blast
    qed
  next
    assume "\<exists>pre post. c # cs = pre @ sub @ post"
    then obtain pre post where eq: "c # cs = pre @ sub @ post" by blast
    show "contains (c # cs) sub"
    proof (cases pre)
      case Nil
      with eq have "startswith (c # cs) sub" by (simp add: startswith_def)
      then show ?thesis by simp
    next
      case (Cons a pre')
      with eq have "cs = pre' @ sub @ post" by simp
      with Cons.IH have "contains cs sub" by blast
      then show ?thesis by simp
    qed
  qed
qed

lemma process_entries_source:
  "r \<in> set (process_entries foldername allf exts entries) \<Longrightarrow> Source_Folder r = foldername"
  by (induction entries) (auto split: node.splits if_splits)

lemma gather_file_stats_not_skipped:
  "r \<in> set (gather_file_stats root_path exts allf skips nd) \<Longrightarrow>
   not_skipped skips (Source_Folder r)"
  by (auto simp: gather_file_stats_def process_files_def dest: process_entries_source)

lemma not_skipped_member:
  "not_skipped skips p \<Longrightarrow> d \<in> set skips \<Longrightarrow> \<not> contains p d"
  by (simp add: not_skipped_def list_all_iff)

lemma FileStatsCollector_init_stats:
  "FileStatsCollector_init root_path exts allf skips at_root = Inr c \<Longrightarrow>
   skip_folders c = skips \<and>
   (\<forall>r \<in> set (file_stats c). not_skipped skips (Source_Folder r))"
  by (auto simp: FileStatsCollector_init_def check_root_folder_def
      dest: gather_file_stats_not_skipped split: option.splits)

lemma MediaGatherer_init_skips:
  assumes "MediaGatherer_init root_path dopt sopt exts allf at_root = Inr g"
  shows "dest_folder g = (case dopt of None \<Rightarrow> path_join root_path ''media'' | Some d \<Rightarrow> d) \<and>
     skip_folders g = (case sopt of None \<Rightarrow> [] | Some l \<Rightarrow> l) @ [dest_folder g] \<and>
     (\<forall>r \<in> set (file_stats g). \<not> contains (Source_Folder r) (dest_folder g))"
proof -
  let ?d = "case dopt of None \<Rightarrow> path_join root_path ''media'' | Some d \<Rightarrow> d"
  let ?s = "(case sopt of None \<Rightarrow> [] | Some l \<Rightarrow> l) @ [?d]"
  from assms obtain c where c: "FileStatsCollector_init root_path exts allf ?s at_root = Inr c"
    and g: "g = collector.extend c \<lparr>moved_files = [], dest_folder = ?d\<rparr>"
    by (auto simp: MediaGatherer_init_def Let_def split: sum.splits)
  from g have d: "dest_folder g = ?d" and fs: "file_stats g = file_stats c"
    and sk: "skip_folders g = skip_folders c"
    by (simp_all add: collector.defs)
  from FileStatsCollector_init_stats [OF c] have sc: "skip_folders c = ?s"
    and ns: "\<forall>r \<in> set (file_stats c). not_skipped ?s (Source_Folder r)" by simp_all
  have "\<forall>r \<in> set (file_stats g). \<not> contains (Source_Folder r) (dest_folder g)"
  proof
    fix r assume "r \<in> set (file_stats g)"
    with fs ns have "not_skipped ?s (Source_Folder r)" by simp
    then have "\<not> contains (Source_Folder r) ?d" by (rule not_skipped_member) simp
    with d show "\<not> contains (Source_Folder r) (dest_folder g)" by simp
  qed
  with d sk sc show ?thesis by simp
qed

text \<open>Example data: a root directory with one file and a \<open>media\<close> folder holding another.\<close>

definition example_tree :: node where
  "example_tree =
     Directory [(''a.mp3'', RegFile 10 0 0),
                (''media'', Directory [(''old.mp3'', RegFile 7 0 0)])]"

subsection \<open>The root check\<close>

text \<open>
  C8, as the code has it. The scan fails with the root-not-found error exactly when
  nothing exists at the root path; the check comes first, and when it passes the
  collector holds the scan of whatever stands at the root. For a root that exists but
  is not a directory, the scan is empty and no error is raised.
\<close>

theorem root_check_tests_existence_only:
  "(FileStatsCollector_init root_path exts allf skips at_root = Inl FileNotFoundError
      \<longleftrightarrow> at_root = None) \<and>
   (\<forall>c. FileStatsCollector_init root_path exts allf skips at_root = Inr c
      \<longleftrightarrow> (\<exists>nd. at_root = Some nd \<and>
             c = \<lparr>root_folder = root_path, media_extensions = exts, all_files = allf,
                  skip_folders = skips,
                  file_stats = gather_file_stats root_path exts allf skips nd\<rparr>)) \<and>
   (\<forall>nd. (\<forall>entries. nd \<noteq> Directory entries) \<longrightarrow>
      gather_file_stats root_path exts allf skips nd = [])"
proof (intro conjI allI impI)
  show "FileStatsCollector_init root_path exts allf skips at_root = Inl FileNotFoundError
      \<longleftrightarrow> at_root = None"
    by (cases at_root) (simp_all add: FileStatsCollector_init_def check_root_folder_def)
next
  fix c
  show "FileStatsCollector_init root_path exts allf skips at_root = Inr c
      \<longleftrightarrow> (\<exists>nd. at_root = Some nd \<and>
             c = \<lparr>root_folder = root_path, media_extensions = exts, all_files = allf,
                  skip_folders = skips,
                  file_stats = gather_file_stats root_path exts allf skips nd\<rparr>)"
    by (cases at_root) (auto simp: FileStatsCollector_init_def check_root_folder_def)
next
  fix nd assume "\<forall>entries. nd \<noteq> Directory entries"
  then show "gather_file_stats root_path exts allf skips nd = []"
    by (cases nd) (simp_all add: gather_file_stats_def walk_root_def)
qed

theorem root_check_tests_existence_only_witness:
  "FileStatsCollector_init ''r'' [''.mp3''] False [] None = Inl FileNotFoundError \<and>
   FileStatsCollector_init ''r'' [''.mp3''] False [] (Some Special) =
     Inr \<lparr>root_folder = ''r'', media_extensions = [''.mp3''], all_files = False,
          skip_folders = [], file_stats = gather_file_stats ''r'' [''.mp3''] False [] Special\<rparr> \<and>
   gather_file_stats ''r'' [''.mp3''] False [] Special = []"
proof -
  note t = root_check_tests_existence_only [of "''r''" "[''.mp3'']" False "[]"]
  from t [of None] have a: "FileStatsCollector_init ''r'' [''.mp3''] False [] None =
      Inl FileNotFoundError" by simp
  from t [of "Some Special"] have b: "FileStatsCollector_init ''r'' [''.mp3''] False [] (Some Special) =
     Inr \<lparr>root_folder = ''r'', media_extensions = [''.mp3''], all_files = False,
          skip_folders = [], file_stats = gather_file_stats ''r'' [''.mp3''] False [] Special\<rparr>"
    by blast
  have "\<forall>entries. Special \<noteq> Directory entries" by simp
  with t [of None] have c: "gather_file_stats ''r'' [''.mp3''] False [] Special = []" by blast
  from a b c show ?thesis by blast
qed

text \<open>
  The claim as stated fails: a root that is a regular file exists and is not a
  directory, and the construction succeeds with no records.
\<close>

theorem root_not_a_directory_counterexample:
  "FileStatsCollector_init ''r'' [''.mp3''] False [] (Some (RegFile 1 0 0)) =
     Inr \<lparr>root_folder = ''r'', media_extensions = [''.mp3''], all_files = False,
          skip_folders = [], file_stats = []\<rparr>"
  by code_simp

subsection \<open>Reachable files\<close>

text \<open>
  The spec's words for the scan: the directories reachable from the root, each with its
  full path, and the well-formed trees (in a directory the names are pairwise
  different, none is empty and none holds the separator).
\<close>

inductive reachable_dir ::
  "string \<Rightarrow> (string \<times> node) list \<Rightarrow> string \<Rightarrow> (string \<times> node) list \<Rightarrow> bool" where
  here: "reachable_dir topdir entries topdir entries"
| below: "(name, Directory sub) \<in> set entries \<Longrightarrow>
          reachable_dir (path_join topdir name) sub p es \<Longrightarrow>
          reachable_dir topdir entries p es"

fun wf_dir :: "(string \<times> node) list \<Rightarrow> bool"
  and wf_items :: "(string \<times> node) list \<Rightarrow> bool"
where
  "wf_dir entries = (distinct (map fst entries) \<and> wf_items entries)"
| "wf_items [] = True"
| "wf_items ((name, nd) # rest) =
     (name \<noteq> [] \<and> CHR ''/'' \<notin> set name \<and>
      (case nd of Directory sub \<Rightarrow> wf_dir sub | _ \<Rightarrow> True) \<and> wf_items rest)"

text \<open>The key of a record: its folder and its file name.\<close>

definition record_key :: "file_stat \<Rightarrow> string \<times> string" where
  "record_key r = (Source_Folder r, File_Name r)"

lemma walk_entries_mono:
  "(name, Directory sub) \<in> set entries \<Longrightarrow>
   set (walk (path_join topdir name) sub) \<subseteq> set (walk_entries topdir entries)"
proof (induction entries)
  case Nil
  then show ?case by simp
next
  case (Cons e entries)
  obtain n nd where e: "e = (n, nd)" by (cases e)
  show ?case
  proof (cases "e = (name, Directory sub)")
    case True
    with e show ?thesis by auto
  next
    case False
    with Cons have "set (walk (path_join topdir name) sub) \<subseteq> set (walk_entries topdir entries)"
      by simp
    with e show ?thesis by auto
  qed
qed

lemma walk_complete: "reachable_dir topdir entries p es \<Longrightarrow> (p, es) \<in> set (walk topdir entries)"
proof (induction rule: reachable_dir.induct)
  case (here topdir entries)
  show ?case by simp
next
  case (below name sub entries topdir p es)
  with walk_entries_mono [of name sub entries topdir] show ?case by auto
qed

lemma walk_sound_aux:
  "(\<forall>q \<in> set (walk topdir entries). reachable_dir topdir entries (fst q) (snd q))"
  "(\<forall>q \<in> set (walk_entries topdir entries).
      \<exists>name sub. (name, Directory sub) \<in> set entries \<and>
         reachable_dir (path_join topdir name) sub (fst q) (snd q))"
proof (induction topdir entries and topdir entries rule: walk_walk_entries.induct)
  case (1 topdir entries)
  show ?case
  proof
    fix q assume "q \<in> set (walk topdir entries)"
    then consider "q = (topdir, entries)" | "q \<in> set (walk_entries topdir entries)" by auto
    then show "reachable_dir topdir entries (fst q) (snd q)"
    proof cases
      case 1 then show ?thesis by (simp add: reachable_dir.here)
    next
      case 2
      with "1.IH" obtain name sub where "(name, Directory sub) \<in> set entries"
        "reachable_dir (path_join topdir name) sub (fst q) (snd q)" by blast
      then show ?thesis by (rule reachable_dir.below)
    qed
  qed
next
  case (2 topdir)
  show ?case by simp
next
  case (3 topdir name nd rest)
  show ?case
  proof
    fix q assume q: "q \<in> set (walk_entries topdir ((name, nd) # rest))"
    show "\<exists>n sub. (n, Directory sub) \<in> set ((name, nd) # rest) \<and>
         reachable_dir (path_join topdir n) sub (fst q) (snd q)"
    proof (cases "q \<in> set (walk_entries topdir rest)")
      case True
      with "3.IH"(2) obtain n sub where "(n, Directory sub) \<in> set rest"
        "reachable_dir (path_join topdir n) sub (fst q) (snd q)" by blast
      then show ?thesis by auto
    next
      case False
      with q obtain sub where nd: "nd = Directory sub"
        and "q \<in> set (walk (path_join topdir name) sub)"
        by (cases nd) auto
      with "3.IH"(1) have "reachable_dir (path_join topdir name) sub (fst q) (snd q)" by blast
      with nd show ?thesis by auto
    qed
  qed
qed

lemma set_walk: "set (walk topdir entries) = {(p, es). reachable_dir topdir entries p es}"
  using walk_sound_aux(1) [of topdir entries] walk_complete [of topdir entries] by auto

text \<open>The part of \<open>os.path.join(top, name)\<close> before the name, for a name that is relative.\<close>

definition join_prefix :: "string \<Rightarrow> string" where
  "join_prefix a = (if a = [] \<or> endswith a ''/'' then a else a @ ''/'')"

lemma endswith_slash: "endswith a ''/'' \<longleftrightarrow> a \<noteq> [] \<and> last a = CHR ''/''"
proof (cases a rule: rev_cases)
  case Nil
  then show ?thesis by (simp add: endswith_def)
next
  case (snoc ys y)
  then show ?thesis by (auto simp: endswith_def)
qed

lemma path_join_relative:
  "name \<noteq> [] \<Longrightarrow> CHR ''/'' \<notin> set name \<Longrightarrow> path_join a name = join_prefix a @ name"
  by (cases name) (auto simp: path_join_def join_prefix_def startswith_def)

lemma join_prefix_child:
  assumes "name \<noteq> []" and "CHR ''/'' \<notin> set name"
  shows "join_prefix (join_prefix a @ name) = join_prefix a @ name @ ''/''"
proof -
  from assms have "last (join_prefix a @ name) = last name" by simp
  moreover from assms have "last name \<noteq> CHR ''/''" using last_in_set by metis
  ultimately show ?thesis using assms(1) by (simp add: join_prefix_def endswith_slash)
qed

definition below_dir :: "string \<Rightarrow> (string \<times> node) list \<Rightarrow> string \<Rightarrow> bool" where
  "below_dir a entries p \<longleftrightarrow>
     (\<exists>name s. name \<in> fst ` set entries \<and> p = join_prefix a @ name @ s \<and>
               (s = [] \<or> hd s = CHR ''/''))"

lemma wf_items_member:
  "wf_items entries \<Longrightarrow> (name, nd) \<in> set entries \<Longrightarrow>
   name \<noteq> [] \<and> CHR ''/'' \<notin> set name \<and> (\<forall>sub. nd = Directory sub \<longrightarrow> wf_dir sub)"
  by (induction entries) (auto split: node.splits)

lemma below_dir_Cons:
  "below_dir a rest p \<Longrightarrow> below_dir a (e # rest) p"
  by (auto simp: below_dir_def)

lemma walk_paths_below:
  "wf_items entries \<longrightarrow>
     (\<forall>q \<in> set (walk topdir entries). fst q = topdir \<or> below_dir topdir entries (fst q))"
  "wf_items entries \<longrightarrow>
     (\<forall>q \<in> set (walk_entries topdir entries). below_dir topdir entries (fst q))"
proof (induction topdir entries and topdir entries rule: walk_walk_entries.induct)
  case (1 topdir entries)
  then show ?case by auto
next
  case (2 topdir)
  show ?case by simp
next
  case (3 topdir name nd rest)
  show ?case
  proof (intro impI ballI)
    fix q assume wf: "wf_items ((name, nd) # rest)"
      and q: "q \<in> set (walk_entries topdir ((name, nd) # rest))"
    from wf have nm: "name \<noteq> []" "CHR ''/'' \<notin> set name" and wfr: "wf_items rest" by simp_all
    show "below_dir topdir ((name, nd) # rest) (fst q)"
    proof (cases "q \<in> set (walk_entries topdir rest)")
      case True
      with "3.IH"(2) wfr have "below_dir topdir rest (fst q)" by blast
      then show ?thesis by (rule below_dir_Cons)
    next
      case False
      with q obtain sub where nd: "nd = Directory sub"
        and qs: "q \<in> set (walk (path_join topdir name) sub)"
        by (cases nd) auto
      from wf nd have "wf_items sub" by simp
      with "3.IH"(1) [OF nd] qs
      have alt: "fst q = path_join topdir name \<or> below_dir (path_join topdir name) sub (fst q)"
        by blast
      have pj: "path_join topdir name = join_prefix topdir @ name"
        using nm by (rule path_join_relative)
      from alt show ?thesis
      proof
        assume "fst q = path_join topdir name"
        with pj have "fst q = join_prefix topdir @ name @ []" by simp
        then show ?thesis unfolding below_dir_def by (intro exI [of _ name] exI [of _ "[]"]) simp
      next
        assume "below_dir (path_join topdir name) sub (fst q)"
        then obtain m s where "fst q = join_prefix (path_join topdir name) @ m @ s"
          unfolding below_dir_def by blast
        with pj join_prefix_child [OF nm, of topdir]
        have "fst q = join_prefix topdir @ name @ (CHR ''/'' # m @ s)" by simp
        then show ?thesis unfolding below_dir_def
          by (intro exI [of _ name] exI [of _ "CHR ''/'' # m @ s"]) simp
      qed
    qed
  qed
qed

lemma name_split_unique:
  assumes "CHR ''/'' \<notin> set n" "CHR ''/'' \<notin> set n'"
    and "s = [] \<or> hd s = CHR ''/''" "s' = [] \<or> hd s' = CHR ''/''"
    and "n @ s = n' @ s'"
  shows "n = n'"
proof -
  have tw: "\<And>m t. CHR ''/'' \<notin> set m \<Longrightarrow> t = [] \<or> hd t = CHR ''/'' \<Longrightarrow>
      takeWhile (\<lambda>c. c \<noteq> CHR ''/'') (m @ t) = m"
  proof -
    fix m :: string and t :: string
    assume m: "CHR ''/'' \<notin> set m" and t: "t = [] \<or> hd t = CHR ''/''"
    from m have all: "\<And>x. x \<in> set m \<Longrightarrow> x \<noteq> CHR ''/''" by auto
    from t have "takeWhile (\<lambda>c. c \<noteq> CHR ''/'') t = []" by (cases t) auto
    with takeWhile_append2 [of m "\<lambda>c. c \<noteq> CHR ''/''" t] all
    show "takeWhile (\<lambda>c. c \<noteq> CHR ''/'') (m @ t) = m" by simp
  qed
  from tw [OF assms(1) assms(3)] tw [OF assms(2) assms(4)] assms(5) show ?thesis by simp
qed

lemma below_dir_not_self:
  assumes "wf_items entries" and "below_dir a entries p"
  shows "p \<noteq> a"
proof -
  from assms(2) obtain name s where n: "name \<in> fst ` set entries"
    and p: "p = join_prefix a @ name @ s" unfolding below_dir_def by blast
  from n obtain nd where "(name, nd) \<in> set entries" by auto
  with assms(1) have "name \<noteq> []" using wf_items_member by blast
  then have "length a < length p" unfolding p by (simp add: join_prefix_def)
  then show ?thesis by auto
qed

lemma below_dir_siblings_differ:
  assumes wf: "wf_items ((name, nd) # rest)" and d: "name \<notin> fst ` set rest"
    and a: "below_dir topdir [(name, nd)] p" and b: "below_dir topdir rest p'"
  shows "p \<noteq> p'"
proof
  assume eq: "p = p'"
  from a obtain s where p: "p = join_prefix topdir @ name @ s" and s: "s = [] \<or> hd s = CHR ''/''"
    unfolding below_dir_def by auto
  from b obtain n' s' where n': "n' \<in> fst ` set rest"
    and p': "p' = join_prefix topdir @ n' @ s'" and s': "s' = [] \<or> hd s' = CHR ''/''"
    unfolding below_dir_def by blast
  from n' obtain nd' where "(n', nd') \<in> set rest" by auto
  with wf have sl': "CHR ''/'' \<notin> set n'" using wf_items_member [of rest n' nd'] by simp
  from wf have sl: "CHR ''/'' \<notin> set name" by simp
  from eq p p' have "name @ s = n' @ s'" by simp
  with sl sl' s s' have "name = n'" by (rule name_split_unique)
  with n' d show False by simp
qed

lemma walk_single_below:
  assumes "wf_items [(name, Directory sub)]" and "q \<in> set (walk (path_join topdir name) sub)"
  shows "below_dir topdir [(name, Directory sub)] (fst q)"
proof -
  from assms(2) have "q \<in> set (walk_entries topdir [(name, Directory sub)])" by simp
  with walk_paths_below(2) [of "[(name, Directory sub)]" topdir] assms(1) show ?thesis by blast
qed

lemma walk_distinct:
  "wf_dir entries \<longrightarrow> distinct (map fst (walk topdir entries))"
  "wf_dir entries \<longrightarrow> distinct (map fst (walk_entries topdir entries))"
proof (induction topdir entries and topdir entries rule: walk_walk_entries.induct)
  case (1 topdir entries)
  show ?case
  proof
    assume wf: "wf_dir entries"
    with 1 have d: "distinct (map fst (walk_entries topdir entries))" by blast
    from wf have wi: "wf_items entries" by simp
    have "topdir \<notin> fst ` set (walk_entries topdir entries)"
    proof
      assume "topdir \<in> fst ` set (walk_entries topdir entries)"
      then obtain q where q: "q \<in> set (walk_entries topdir entries)" "fst q = topdir" by auto
      with walk_paths_below(2) [of entries topdir] wi have "below_dir topdir entries topdir" by auto
      with below_dir_not_self [OF wi] show False by blast
    qed
    with d show "distinct (map fst (walk topdir entries))" by simp
  qed
next
  case (2 topdir)
  show ?case by simp
next
  case (3 topdir name nd rest)
  show ?case
  proof
    assume wf: "wf_dir ((name, nd) # rest)"
    then have wi: "wf_items ((name, nd) # rest)" and nn: "name \<notin> fst ` set rest"
      and wr: "wf_dir rest" by auto
    from wr "3.IH"(2) have dr: "distinct (map fst (walk_entries topdir rest))" by blast
    show "distinct (map fst (walk_entries topdir ((name, nd) # rest)))"
    proof (cases nd)
      case (Directory sub)
      from wi Directory have ws: "wf_dir sub" by simp
      with "3.IH"(1) [OF Directory] have ds: "distinct (map fst (walk (path_join topdir name) sub))"
        by blast
      from wi Directory have w1: "wf_items [(name, Directory sub)]" by simp
      from wi have wir: "wf_items rest" by simp
      have "fst ` set (walk (path_join topdir name) sub) \<inter> fst ` set (walk_entries topdir rest) = {}"
      proof (rule ccontr)
        assume "fst ` set (walk (path_join topdir name) sub) \<inter>
                fst ` set (walk_entries topdir rest) \<noteq> {}"
        then obtain x where x1: "x \<in> fst ` set (walk (path_join topdir name) sub)"
          and x2: "x \<in> fst ` set (walk_entries topdir rest)" by blast
        from x1 obtain q where q: "q \<in> set (walk (path_join topdir name) sub)"
          and qx: "fst q = x" by blast
        from x2 obtain q' where q': "q' \<in> set (walk_entries topdir rest)"
          and qx': "fst q' = x" by blast
        from qx qx' have eq: "fst q = fst q'" by simp
        from walk_single_below [OF w1 q] have a: "below_dir topdir [(name, Directory sub)] (fst q)" .
        from walk_paths_below(2) [of rest topdir] wir q' have b: "below_dir topdir rest (fst q')"
          by blast
        from wi Directory have "wf_items ((name, Directory sub) # rest)" by simp
        from below_dir_siblings_differ [OF this nn a b] eq show False by simp
      qed
      with ds dr Directory show ?thesis by (simp del: walk.simps)
    next
      case (RegFile x1 x2 x3)
      with dr show ?thesis by simp
    next
      case Special
      with dr show ?thesis by simp
    qed
  qed
qed

lemma reachable_dir_wf:
  "reachable_dir topdir entries p es \<Longrightarrow> wf_dir entries \<Longrightarrow> wf_dir es"
proof (induction rule: reachable_dir.induct)
  case (here topdir entries)
  then show ?case .
next
  case (below name sub entries topdir p es)
  from below.prems have "wf_items entries" by simp
  with below.hyps(1) have "wf_dir sub" using wf_items_member by blast
  then show ?case by (rule below.IH)
qed

lemma process_entries_keys:
  "record_key ` set (process_entries foldername allf exts entries) =
     {(foldername, name) | name sz ct mt.
        (name, RegFile sz ct mt) \<in> set entries \<and> (allf \<or> is_media_file exts name)}"
proof (induction entries)
  case Nil
  show ?case by simp
next
  case (Cons e entries)
  obtain n nd where e: "e = (n, nd)" by (cases e)
  show ?case using Cons.IH unfolding e
    by (cases nd; cases allf; cases "is_media_file exts n") (auto simp: record_key_def)
qed

lemma process_entries_names:
  "map File_Name (process_entries foldername allf exts entries) =
     map fst (filter (\<lambda>(name, nd). (\<exists>sz ct mt. nd = RegFile sz ct mt) \<and>
                        (allf \<or> is_media_file exts name)) entries)"
proof (induction entries)
  case Nil
  show ?case by simp
next
  case (Cons e entries)
  obtain n nd where e: "e = (n, nd)" by (cases e)
  show ?case using Cons.IH unfolding e
    by (cases nd; cases allf; cases "is_media_file exts n") auto
qed

lemma process_entries_distinct:
  assumes "distinct (map fst entries)"
  shows "distinct (map record_key (process_entries foldername allf exts entries))"
proof -
  from assms have "distinct (map File_Name (process_entries foldername allf exts entries))"
    unfolding process_entries_names by (rule distinct_map_filter)
  moreover have "map File_Name (process_entries foldername allf exts entries) =
      map snd (map record_key (process_entries foldername allf exts entries))"
    by (simp add: record_key_def comp_def)
  ultimately show ?thesis by (metis distinct_map)
qed

lemma process_entries_key_folder:
  "k \<in> record_key ` set (process_entries foldername allf exts entries) \<Longrightarrow> fst k = foldername"
  unfolding process_entries_keys by auto

lemma scan_keys_folder:
  "k \<in> record_key ` set (concat (map (\<lambda>(foldername, entries).
        process_files foldername allf exts entries) ws)) \<Longrightarrow> fst k \<in> fst ` set ws"
proof (induction ws)
  case Nil
  then show ?case by simp
next
  case (Cons w ws)
  obtain p es where w: "w = (p, es)" by (cases w)
  from Cons.prems w consider
    "k \<in> record_key ` set (process_entries p allf exts es)"
    | "k \<in> record_key ` set (concat (map (\<lambda>(foldername, entries).
        process_files foldername allf exts entries) ws))"
    by (auto simp: process_files_def)
  then show ?case
  proof cases
    case 1
    then have "fst k = p" by (rule process_entries_key_folder)
    with w show ?thesis by simp
  next
    case 2
    with Cons.IH show ?thesis by simp
  qed
qed

lemma scan_distinct:
  "distinct (map fst ws) \<Longrightarrow> (\<forall>w \<in> set ws. distinct (map fst (snd w))) \<Longrightarrow>
   distinct (map record_key
     (concat (map (\<lambda>(foldername, entries). process_files foldername allf exts entries) ws)))"
proof (induction ws)
  case Nil
  show ?case by simp
next
  case (Cons w ws)
  obtain p es where w: "w = (p, es)" by (cases w)
  let ?rest = "concat (map (\<lambda>(foldername, entries).
      process_files foldername allf exts entries) ws)"
  from Cons.prems w have d1: "distinct (map record_key (process_entries p allf exts es))"
    by (simp add: process_entries_distinct)
  from Cons have d2: "distinct (map record_key ?rest)" by simp
  have "record_key ` set (process_entries p allf exts es) \<inter> record_key ` set ?rest = {}"
  proof (rule ccontr)
    assume "record_key ` set (process_entries p allf exts es) \<inter> record_key ` set ?rest \<noteq> {}"
    then obtain k where k1: "k \<in> record_key ` set (process_entries p allf exts es)"
      and k2: "k \<in> record_key ` set ?rest" by blast
    from k1 have f1: "fst k = p" by (rule process_entries_key_folder)
    from k2 have "fst k \<in> fst ` set ws" by (rule scan_keys_folder)
    with f1 Cons.prems(1) w show False by simp
  qed
  with d1 d2 w show ?case by (simp add: process_files_def)
qed

lemma not_skipped_iff:
  "not_skipped skips p \<longleftrightarrow> (\<forall>s \<in> set skips. \<not> (\<exists>pre post. p = pre @ s @ post))"
  by (simp add: not_skipped_def list_all_iff contains_iff)

lemma concat_keys:
  "record_key ` set (concat (map (\<lambda>(foldername, entries).
        process_files foldername allf exts entries) ws)) =
     (\<Union>w \<in> set ws. record_key ` set (process_entries (fst w) allf exts (snd w)))"
  by (induction ws) (auto simp: process_files_def)

lemma scan_keys:
  "record_key ` set (gather_file_stats root_path exts allf skips (Directory entries)) =
     {(p, name) | p name es sz ct mt.
        reachable_dir root_path entries p es \<and> not_skipped skips p \<and>
        (name, RegFile sz ct mt) \<in> set es \<and> (allf \<or> is_media_file exts name)}"
proof -
  let ?ws = "filter (\<lambda>(foldername, entries). not_skipped skips foldername) (walk root_path entries)"
  have ws: "set ?ws = {(p, es). reachable_dir root_path entries p es \<and> not_skipped skips p}"
    unfolding set_filter set_walk by auto
  have "record_key ` set (gather_file_stats root_path exts allf skips (Directory entries)) =
      (\<Union>w \<in> set ?ws. record_key ` set (process_entries (fst w) allf exts (snd w)))"
    unfolding gather_file_stats_def walk_root_def node.case by (rule concat_keys)
  also have "\<dots> = {(p, name) | p name es sz ct mt.
        reachable_dir root_path entries p es \<and> not_skipped skips p \<and>
        (name, RegFile sz ct mt) \<in> set es \<and> (allf \<or> is_media_file exts name)}"
    unfolding ws process_entries_keys by auto blast+
  finally show ?thesis .
qed

text \<open>
  C4. For a scan with \<open>all_files\<close> set, the records are, by folder and file name,
  exactly the files that stand in a directory reachable under the root whose full path
  contains none of the skip substrings; files of other directories have no record. In
  a well-formed tree no two records share folder and name, so every such file has
  exactly one record.
\<close>

theorem scan_all_files_one_record_per_file:
  "(allf \<longrightarrow>
      record_key ` set (gather_file_stats root_path exts allf skips (Directory entries)) =
        {(p, name) | p name es sz ct mt.
           reachable_dir root_path entries p es \<and>
           (\<forall>s \<in> set skips. \<not> (\<exists>pre post. p = pre @ s @ post)) \<and>
           (name, RegFile sz ct mt) \<in> set es}) \<and>
   (wf_dir entries \<longrightarrow>
      distinct (map record_key
        (gather_file_stats root_path exts allf skips (Directory entries))))"
proof (intro conjI impI)
  assume allf
  then show "record_key ` set (gather_file_stats root_path exts allf skips (Directory entries)) =
        {(p, name) | p name es sz ct mt.
           reachable_dir root_path entries p es \<and>
           (\<forall>s \<in> set skips. \<not> (\<exists>pre post. p = pre @ s @ post)) \<and>
           (name, RegFile sz ct mt) \<in> set es}"
    unfolding scan_keys not_skipped_iff by simp
next
  assume wf: "wf_dir entries"
  let ?ws = "filter (\<lambda>(foldername, entries). not_skipped skips foldername) (walk root_path entries)"
  from wf have "distinct (map fst (walk root_path entries))" using walk_distinct(1) by blast
  then have d: "distinct (map fst ?ws)" by (rule distinct_map_filter)
  have e: "\<forall>w \<in> set ?ws. distinct (map fst (snd w))"
  proof
    fix w assume "w \<in> set ?ws"
    then have "w \<in> set (walk root_path entries)" by (simp del: walk.simps)
    then have "reachable_dir root_path entries (fst w) (snd w)"
      using walk_sound_aux(1) by blast
    from reachable_dir_wf [OF this wf] show "distinct (map fst (snd w))" by simp
  qed
  from scan_distinct [OF d e, of allf exts]
  show "distinct (map record_key (gather_file_stats root_path exts allf skips (Directory entries)))"
    by (simp add: gather_file_stats_def walk_root_def del: walk.simps)
qed

theorem scan_all_files_one_record_per_file_witness:
  "wf_dir [(''a.mp3'', RegFile 10 0 0), (''media'', Directory [(''old.mp3'', RegFile 7 0 0)])] \<and>
   distinct (map record_key (gather_file_stats ''r'' [''.mp3''] True [''skip_me'']
     (Directory [(''a.mp3'', RegFile 10 0 0),
                 (''media'', Directory [(''old.mp3'', RegFile 7 0 0)])]))) \<and>
   record_key ` set (gather_file_stats ''r'' [''.mp3''] True [''skip_me'']
     (Directory [(''a.mp3'', RegFile 10 0 0),
                 (''media'', Directory [(''old.mp3'', RegFile 7 0 0)])])) =
     {(''r'', ''a.mp3''), (''r/media'', ''old.mp3'')}"
proof -
  let ?es = "[(''a.mp3'', RegFile 10 0 0), (''media'', Directory [(''old.mp3'', RegFile 7 0 0)])]"
  have wf: "wf_dir ?es" by simp
  note t = scan_all_files_one_record_per_file [of True "''r''" "[''.mp3'']" "[''skip_me'']" ?es]
  from t wf have d: "distinct (map record_key
      (gather_file_stats ''r'' [''.mp3''] True [''skip_me''] (Directory ?es)))" by blast
  have k: "record_key ` set (gather_file_stats ''r'' [''.mp3''] True [''skip_me''] (Directory ?es)) =
     {(''r'', ''a.mp3''), (''r/media'', ''old.mp3'')}"
    by (simp add: gather_file_stats_def walk_root_def process_files_def not_skipped_def
        path_join_def startswith_def endswith_def record_key_def)
  from wf d k show ?thesis by blast
qed

subsection \<open>The destination folder\<close>

text \<open>Every directory reached from a directory has that directory's path as its start.\<close>

lemma reachable_contains:
  assumes "wf_dir entries" and "reachable_dir q entries p es"
  shows "contains p q"
proof -
  from assms(1) have wi: "wf_items entries" by simp
  from assms(2) have "(p, es) \<in> set (walk q entries)" by (rule walk_complete)
  with walk_paths_below(1) [of entries q] wi
  have "p = q \<or> below_dir q entries p" by fastforce
  then have "\<exists>pre post. p = pre @ q @ post"
  proof
    assume "p = q"
    then have "p = [] @ q @ []" by simp
    then show ?thesis by blast
  next
    assume "below_dir q entries p"
    then obtain name s where p: "p = join_prefix q @ name @ s"
      unfolding below_dir_def by blast
    have "\<exists>t. join_prefix q = q @ t" by (simp add: join_prefix_def)
    then obtain t where "join_prefix q = q @ t" ..
    with p have "p = [] @ q @ (t @ name @ s)" by simp
    then show ?thesis by blast
  qed
  then show ?thesis by (simp add: contains_iff)
qed

lemma nothing_scanned_below_destination:
  assumes "\<forall>r \<in> set stats. \<not> contains (Source_Folder r) d"
    and "wf_dir entries" and "reachable_dir root_path entries d es_d"
    and "reachable_dir d es_d p es"
  shows "\<forall>r \<in> set stats. Source_Folder r \<noteq> p"
proof
  fix r assume r: "r \<in> set stats"
  from assms(3,2) have "wf_dir es_d" by (rule reachable_dir_wf)
  then have "contains p d" using assms(4) by (rule reachable_contains)
  with assms(1) r show "Source_Folder r \<noteq> p" by auto
qed

lemma Gatherer_init_skips:
  assumes "Gatherer_init stdin root_path dopt eopt sopt allf at_root = Inr g"
  shows "dest_folder g =
       (case dopt of None \<Rightarrow> path_join root_path ''Extracted Files'' | Some d \<Rightarrow> d) \<and>
     dest_folder g \<in> set (skip_folders g) \<and>
     (\<forall>r \<in> set (file_stats g). \<not> contains (Source_Folder r) (dest_folder g))"
proof -
  let ?d = "case dopt of None \<Rightarrow> path_join root_path ''Extracted Files'' | Some d \<Rightarrow> d"
  from assms obtain xs where
    b: "MediaGatherer_init root_path (Some ?d) (Some (case sopt of None \<Rightarrow> [] | Some l \<Rightarrow> l))
          xs allf at_root = Inr g"
    by (auto simp: Gatherer_init_def Let_def split: sum.splits)
  note m = MediaGatherer_init_skips [OF b]
  from m have d: "dest_folder g = ?d" by simp
  from m have "skip_folders g = (case sopt of None \<Rightarrow> [] | Some l \<Rightarrow> l) @ [dest_folder g]"
    by simp
  then have "dest_folder g \<in> set (skip_folders g)" by simp
  with d m show ?thesis by blast
qed

text \<open>
  C10, as the code has it. Constructing a \<open>MediaGatherer\<close> or a \<open>Gatherer\<close> appends the
  destination folder (the one given, or \<open>media\<close>, respectively \<open>Extracted Files\<close>, under
  the root) to the skip list before the scan runs: whenever the construction succeeds,
  the destination folder is in the skip list and no record of the scan has a source
  folder whose path contains the destination folder's string as a substring. When the
  destination is spelled as the path by which the walk reaches it, no record comes from
  the destination or from any directory below it.
\<close>

theorem destination_is_skipped_by_the_scan:
  "(MediaGatherer_init root_path dopt sopt exts allf at_root = Inr g \<longrightarrow>
      dest_folder g = (case dopt of None \<Rightarrow> path_join root_path ''media'' | Some d \<Rightarrow> d) \<and>
      dest_folder g \<in> set (skip_folders g) \<and>
      (\<forall>r \<in> set (file_stats g). \<not> contains (Source_Folder r) (dest_folder g))) \<and>
   (Gatherer_init stdin root_path dopt eopt sopt allf at_root = Inr g' \<longrightarrow>
      dest_folder g' =
        (case dopt of None \<Rightarrow> path_join root_path ''Extracted Files'' | Some d \<Rightarrow> d) \<and>
      dest_folder g' \<in> set (skip_folders g') \<and>
      (\<forall>r \<in> set (file_stats g'). \<not> contains (Source_Folder r) (dest_folder g'))) \<and>
   (MediaGatherer_init root_path dopt sopt exts allf (Some (Directory entries)) = Inr h \<and>
    wf_dir entries \<and> reachable_dir root_path entries (dest_folder h) es_d \<and>
    reachable_dir (dest_folder h) es_d p es \<longrightarrow>
      (\<forall>r \<in> set (file_stats h). Source_Folder r \<noteq> p)) \<and>
   (Gatherer_init stdin root_path dopt eopt sopt allf (Some (Directory entries)) = Inr h' \<and>
    wf_dir entries \<and> reachable_dir root_path entries (dest_folder h') es_d' \<and>
    reachable_dir (dest_folder h') es_d' p' es' \<longrightarrow>
      (\<forall>r \<in> set (file_stats h'). Source_Folder r \<noteq> p'))"
proof (intro conjI impI)
  assume a: "MediaGatherer_init root_path dopt sopt exts allf at_root = Inr g"
  note m = MediaGatherer_init_skips [OF a]
  from m show "dest_folder g = (case dopt of None \<Rightarrow> path_join root_path ''media'' | Some d \<Rightarrow> d)"
    by blast
  from m have "skip_folders g = (case sopt of None \<Rightarrow> [] | Some l \<Rightarrow> l) @ [dest_folder g]" by blast
  then show "dest_folder g \<in> set (skip_folders g)" by simp
  from m show "\<forall>r \<in> set (file_stats g). \<not> contains (Source_Folder r) (dest_folder g)" by blast
next
  assume a: "Gatherer_init stdin root_path dopt eopt sopt allf at_root = Inr g'"
  note m = Gatherer_init_skips [OF a]
  from m show "dest_folder g' =
      (case dopt of None \<Rightarrow> path_join root_path ''Extracted Files'' | Some d \<Rightarrow> d)" by blast
  from m show "dest_folder g' \<in> set (skip_folders g')" by blast
  from m show "\<forall>r \<in> set (file_stats g'). \<not> contains (Source_Folder r) (dest_folder g')" by blast
next
  assume a: "MediaGatherer_init root_path dopt sopt exts allf (Some (Directory entries)) = Inr h \<and>
    wf_dir entries \<and> reachable_dir root_path entries (dest_folder h) es_d \<and>
    reachable_dir (dest_folder h) es_d p es"
  then have i: "MediaGatherer_init root_path dopt sopt exts allf (Some (Directory entries)) = Inr h"
    by blast
  from MediaGatherer_init_skips [OF i]
  have n: "\<forall>r \<in> set (file_stats h). \<not> contains (Source_Folder r) (dest_folder h)" by blast
  from a have w: "wf_dir entries" and r1: "reachable_dir root_path entries (dest_folder h) es_d"
    and r2: "reachable_dir (dest_folder h) es_d p es" by blast+
  from n w r1 r2 show "\<forall>r \<in> set (file_stats h). Source_Folder r \<noteq> p"
    by (rule nothing_scanned_below_destination)
next
  assume a: "Gatherer_init stdin root_path dopt eopt sopt allf (Some (Directory entries)) = Inr h' \<and>
    wf_dir entries \<and> reachable_dir root_path entries (dest_folder h') es_d' \<and>
    reachable_dir (dest_folder h') es_d' p' es'"
  then have i: "Gatherer_init stdin root_path dopt eopt sopt allf (Some (Directory entries)) = Inr h'"
    by blast
  from Gatherer_init_skips [OF i]
  have n: "\<forall>r \<in> set (file_stats h'). \<not> contains (Source_Folder r) (dest_folder h')" by blast
  from a have w: "wf_dir entries" and r1: "reachable_dir root_path entries (dest_folder h') es_d'"
    and r2: "reachable_dir (dest_folder h') es_d' p' es'" by blast+
  from n w r1 r2 show "\<forall>r \<in> set (file_stats h'). Source_Folder r \<noteq> p'"
    by (rule nothing_scanned_below_destination)
qed

theorem destination_is_skipped_by_the_scan_witness:
  "MediaGatherer_init ''r'' None None [''.mp3''] False
      (Some (Directory [(''a.mp3'', RegFile 10 0 0),
                        (''media'', Directory [(''old.mp3'', RegFile 7 0 0)])])) =
     Inr (projr (MediaGatherer_init ''r'' None None [''.mp3''] False
      (Some (Directory [(''a.mp3'', RegFile 10 0 0),
                        (''media'', Directory [(''old.mp3'', RegFile 7 0 0)])])))) \<and>
   wf_dir [(''a.mp3'', RegFile 10 0 0), (''media'', Directory [(''old.mp3'', RegFile 7 0 0)])] \<and>
   dest_folder (projr (MediaGatherer_init ''r'' None None [''.mp3''] False
      (Some (Directory [(''a.mp3'', RegFile 10 0 0),
                        (''media'', Directory [(''old.mp3'', RegFile 7 0 0)])])))) = ''r/media'' \<and>
   reachable_dir ''r''
      [(''a.mp3'', RegFile 10 0 0), (''media'', Directory [(''old.mp3'', RegFile 7 0 0)])]
      ''r/media'' [(''old.mp3'', RegFile 7 0 0)] \<and>
   reachable_dir ''r/media'' [(''old.mp3'', RegFile 7 0 0)]
      ''r/media'' [(''old.mp3'', RegFile 7 0 0)] \<and>
   ''r/media'' \<notin> Source_Folder ` set (file_stats (projr (MediaGatherer_init ''r'' None None
      [''.mp3''] False
      (Some (Directory [(''a.mp3'', RegFile 10 0 0),
                        (''media'', Directory [(''old.mp3'', RegFile 7 0 0)])]))))) \<and>
   map record_key (file_stats (projr (MediaGatherer_init ''r'' None None [''.mp3''] False
      (Some (Directory [(''a.mp3'', RegFile 10 0 0),
                        (''media'', Directory [(''old.mp3'', RegFile 7 0 0)])]))))) =
     [(''r'', ''a.mp3'')] \<and>
   Gatherer_init [] ''r'' (Some ''r/media'') (Some [''.mp3'']) None False
      (Some (Directory [(''a.mp3'', RegFile 10 0 0),
                        (''media'', Directory [(''old.mp3'', RegFile 7 0 0)])])) =
     Inr (projr (Gatherer_init [] ''r'' (Some ''r/media'') (Some [''.mp3'']) None False
      (Some (Directory [(''a.mp3'', RegFile 10 0 0),
                        (''media'', Directory [(''old.mp3'', RegFile 7 0 0)])])))) \<and>
   dest_folder (projr (Gatherer_init [] ''r'' (Some ''r/media'') (Some [''.mp3'']) None False
      (Some (Directory [(''a.mp3'', RegFile 10 0 0),
                        (''media'', Directory [(''old.mp3'', RegFile 7 0 0)])])))) = ''r/media'' \<and>
   ''r/media'' \<notin> Source_Folder ` set (file_stats (projr (Gatherer_init [] ''r''
      (Some ''r/media'') (Some [''.mp3'']) None False
      (Some (Directory [(''a.mp3'', RegFile 10 0 0),
                        (''media'', Directory [(''old.mp3'', RegFile 7 0 0)])])))))"
proof -
  let ?sub = "[(''old.mp3'', RegFile 7 0 0)]"
  let ?es = "[(''a.mp3'', RegFile 10 0 0), (''media'', Directory ?sub)]"
  let ?m = "MediaGatherer_init ''r'' None None [''.mp3''] False (Some (Directory ?es))"
  let ?g = "Gatherer_init [] ''r'' (Some ''r/media'') (Some [''.mp3'']) None False
      (Some (Directory ?es))"
  have m: "?m = Inr (projr ?m)"
    by (simp add: MediaGatherer_init_def FileStatsCollector_init_def check_root_folder_def Let_def)
  have g: "?g = Inr (projr ?g)"
    by (simp add: Gatherer_init_def MediaGatherer_init_def FileStatsCollector_init_def
        check_root_folder_def Let_def)
  have wf: "wf_dir ?es" by simp
  have pm: "path_join ''r'' ''media'' = ''r/media''" by code_simp
  have ks: "map record_key (file_stats (projr ?m)) = [(''r'', ''a.mp3'')]" by code_simp
  have here: "reachable_dir ''r/media'' ?sub ''r/media'' ?sub" by (rule reachable_dir.here)
  have "(''media'', Directory ?sub) \<in> set ?es" by simp
  moreover from here pm have "reachable_dir (path_join ''r'' ''media'') ?sub ''r/media'' ?sub"
    by simp
  ultimately have r1: "reachable_dir ''r'' ?es ''r/media'' ?sub" by (rule reachable_dir.below)
  note t = destination_is_skipped_by_the_scan [where root_path = "''r''" and dopt = None
      and sopt = None and exts = "[''.mp3'']" and allf = False and at_root = "Some (Directory ?es)"
      and g = "projr ?m" and entries = ?es and h = "projr ?m" and es_d = ?sub
      and p = "''r/media''" and es = ?sub]
  note u = destination_is_skipped_by_the_scan [where root_path = "''r''"
      and dopt = "Some ''r/media''" and sopt = None and eopt = "Some [''.mp3'']" and allf = False
      and at_root = "Some (Directory ?es)" and stdin = "[]" and g' = "projr ?g"
      and entries = ?es and h' = "projr ?g" and es_d' = ?sub and p' = "''r/media''"
      and es' = ?sub]
  from t m have "dest_folder (projr ?m) =
      (case None of None \<Rightarrow> path_join ''r'' ''media'' | Some d \<Rightarrow> d)" by blast
  with pm have dm: "dest_folder (projr ?m) = ''r/media''" by simp
  from u g have "dest_folder (projr ?g) =
      (case Some ''r/media'' of None \<Rightarrow> path_join ''r'' ''Extracted Files'' | Some d \<Rightarrow> d)"
    by blast
  then have dg: "dest_folder (projr ?g) = ''r/media''" by simp
  from r1 dm have r1m: "reachable_dir ''r'' ?es (dest_folder (projr ?m)) ?sub" by simp
  from here dm have r2m: "reachable_dir (dest_folder (projr ?m)) ?sub ''r/media'' ?sub" by simp
  from t m wf r1m r2m have "\<forall>r \<in> set (file_stats (projr ?m)). Source_Folder r \<noteq> ''r/media''"
    by blast
  then have nm: "''r/media'' \<notin> Source_Folder ` set (file_stats (projr ?m))" by auto
  from r1 dg have r1g: "reachable_dir ''r'' ?es (dest_folder (projr ?g)) ?sub" by simp
  from here dg have r2g: "reachable_dir (dest_folder (projr ?g)) ?sub ''r/media'' ?sub" by simp
  from u g wf r1g r2g have "\<forall>r \<in> set (file_stats (projr ?g)). Source_Folder r \<noteq> ''r/media''"
    by blast
  then have ng: "''r/media'' \<notin> Source_Folder ` set (file_stats (projr ?g))" by auto
  from m wf dm r1 here nm ks g dg ng show ?thesis by blast
qed

text \<open>
  The claim as stated fails: with the destination given as \<open>r/media/\<close>, the walk reaches
  the folder as \<open>r/media\<close>, which does not contain \<open>r/media/\<close>, and the file \<open>old.mp3\<close>
  that already stands in the destination is scanned.
\<close>

theorem destination_spelled_differently_counterexample:
  "MediaGatherer_init ''r'' (Some ''r/media/'') None [''.mp3''] False (Some example_tree) =
     Inr (projr (MediaGatherer_init ''r'' (Some ''r/media/'') None [''.mp3''] False
            (Some example_tree))) \<and>
   dest_folder (projr (MediaGatherer_init ''r'' (Some ''r/media/'') None [''.mp3''] False
            (Some example_tree))) = ''r/media/'' \<and>
   map record_key (file_stats (projr (MediaGatherer_init ''r'' (Some ''r/media/'') None
            [''.mp3''] False (Some example_tree)))) =
     [(''r'', ''a.mp3''), (''r/media'', ''old.mp3'')] \<and>
   path_join ''r/media'' ''old.mp3'' = path_join ''r/media/'' ''old.mp3''"
  by code_simp

subsection \<open>The classifier\<close>














end
